theory Spec2Isabelle
  imports Main "HOL-Library.Word" "HOL-Library.Sublist"
begin

unbundle bit_operations_syntax

section \<open>Core B: the object cache (web\_data.c, vector.c, cache.c)\<close>

text \<open>
  A failed \<^verbatim>\<open>assert\<close> aborts the process, and a write through a null pointer faults;
  both are values of the model.
\<close>

datatype error = AssertFail | NullDeref

text \<open>
  \<^verbatim>\<open>struct web_data_hdr\<close>. The C strings \<^verbatim>\<open>website\<close> and \<^verbatim>\<open>file\<close> (field \<open>file_w\<close>) are
  the characters before the terminator; \<^verbatim>\<open>data\<close> is the block of \<^verbatim>\<open>data_size\<close>
  bytes copied by \<^verbatim>\<open>memcpy\<close>. \<^verbatim>\<open>clock_t\<close> and \<^verbatim>\<open>int\<close> are integers.
  The value returned by \<^verbatim>\<open>clock ()\<close> is the argument \<open>now\<close> of every operation
  that reads the clock.
\<close>

record web_data =
  website :: string
  file_w :: string
  port :: int
  data :: string
  data_size :: int
  acc_time :: int

definition web_data_update_acc_time :: "web_data \<Rightarrow> int \<Rightarrow> web_data" where
  "web_data_update_acc_time w now = w\<lparr>acc_time := now\<rparr>"

definition web_data_new :: "string \<Rightarrow> string \<Rightarrow> int \<Rightarrow> string \<Rightarrow> int \<Rightarrow> int \<Rightarrow> web_data" where
  "web_data_new website' file' port' data' dataSize now =
     web_data_update_acc_time
       \<lparr>website = website', file_w = file', port = port',
        data = take (nat dataSize) data', data_size = dataSize, acc_time = 0\<rparr> now"

text \<open>A null \<^verbatim>\<open>website\<close> or \<^verbatim>\<open>file\<close> argument is \<open>None\<close>.\<close>

definition web_data_equals :: "web_data \<Rightarrow> string option \<Rightarrow> string option \<Rightarrow> int \<Rightarrow> bool" where
  "web_data_equals w website' file' port' =
     (case website' of None \<Rightarrow> False
      | Some ws \<Rightarrow>
        (case file' of None \<Rightarrow> False
         | Some fl \<Rightarrow> website w = ws \<and> file_w w = fl \<and> port w = port'))"

text \<open>
  \<^verbatim>\<open>struct vector_header\<close>: \<open>arr\<close> holds the slots \<^verbatim>\<open>arr[0 .. size-1]\<close>, so
  \<^verbatim>\<open>V->size\<close> is \<open>length (arr V)\<close>; \<open>capacity\<close> is the allocated number of slots.
\<close>

record vector =
  arr :: "web_data list"
  capacity :: nat

definition vector_new :: vector where
  "vector_new = \<lparr>arr = [], capacity = 5\<rparr>"

function vector_get_from ::
  "vector \<Rightarrow> nat \<Rightarrow> string option \<Rightarrow> string option \<Rightarrow> int \<Rightarrow> int \<Rightarrow> web_data option \<times> vector" where
  "vector_get_from V i website' file' port' now =
     (if i < length (arr V) then
        (if web_data_equals (arr V ! i) website' file' port' then
           (let w = web_data_update_acc_time (arr V ! i) now
            in (Some w, V\<lparr>arr := (arr V)[i := w]\<rparr>))
         else vector_get_from V (i + 1) website' file' port' now)
      else (None, V))"
  by pat_completeness auto
termination
  by (relation "measure (\<lambda>(V, i, _). length (arr V) - i)") auto

declare vector_get_from.simps [simp del]

definition vector_get ::
  "vector \<Rightarrow> string option \<Rightarrow> string option \<Rightarrow> int \<Rightarrow> int \<Rightarrow> web_data option \<times> vector" where
  "vector_get V website' file' port' now = vector_get_from V 0 website' file' port' now"

function vector_pop_from :: "web_data list \<Rightarrow> nat \<Rightarrow> web_data list" where
  "vector_pop_from a i =
     (if i < length a then vector_pop_from (a[i - 1 := a ! i]) (i + 1) else a)"
  by pat_completeness auto
termination
  by (relation "measure (\<lambda>(a, i). length a - i)") auto

declare vector_pop_from.simps [simp del]

definition vector_pop :: "vector \<Rightarrow> nat \<Rightarrow> error + vector" where
  "vector_pop V index =
     (if index < length (arr V)
      then Inr (V\<lparr>arr := take (length (arr V) - 1) (vector_pop_from (arr V) (index + 1))\<rparr>)
      else Inl AssertFail)"

function vector_find_LRU_from :: "web_data list \<Rightarrow> nat \<Rightarrow> nat \<Rightarrow> nat" where
  "vector_find_LRU_from a i best_index =
     (if i < length a then
        vector_find_LRU_from a (i + 1)
          (if acc_time (a ! i) < acc_time (a ! best_index) then i else best_index)
      else best_index)"
  by pat_completeness auto
termination
  by (relation "measure (\<lambda>(a, i, _). length a - i)") auto

declare vector_find_LRU_from.simps [simp del]

definition vector_find_LRU :: "vector \<Rightarrow> error + nat" where
  "vector_find_LRU V =
     (if 0 < length (arr V) then Inr (vector_find_LRU_from (arr V) 1 0) else Inl AssertFail)"

definition vector_evict_LRU :: "vector \<Rightarrow> error + (int \<times> vector)" where
  "vector_evict_LRU V =
     (if 0 < length (arr V) then
        (case vector_find_LRU V of
           Inl e \<Rightarrow> Inl e
         | Inr index \<Rightarrow>
             (let size' = data_size (arr V ! index)
              in case vector_pop V index of
                   Inl e \<Rightarrow> Inl e
                 | Inr V' \<Rightarrow> Inr (size', V')))
      else Inl AssertFail)"

definition vector_resize :: "vector \<Rightarrow> vector" where
  "vector_resize V = V\<lparr>capacity := capacity V * 2\<rparr>"

definition vector_push_back :: "vector \<Rightarrow> web_data \<Rightarrow> vector" where
  "vector_push_back V w =
     (let V' = (if length (arr V) = capacity V then vector_resize V else V)
      in V'\<lparr>arr := arr V' @ [w]\<rparr>)"

definition MAX_CACHE_SIZE :: int where
  "MAX_CACHE_SIZE = 1049000"

text \<open>\<^verbatim>\<open>struct cache_header\<close>; the field \<^verbatim>\<open>size\<close> is \<open>size_c\<close>.\<close>

record cache =
  items :: vector
  size_c :: int

definition cache_new :: cache where
  "cache_new = \<lparr>items = vector_new, size_c = 0\<rparr>"

text \<open>
  \<^verbatim>\<open>cache_get\<close> returns the borrowed \<^verbatim>\<open>data\<close> pointer (the bytes, \<open>None\<close> for
  \<^verbatim>\<open>NULL\<close>) and the value stored in \<^verbatim>\<open>*data_size\<close>.
\<close>

definition cache_get ::
  "cache \<Rightarrow> string option \<Rightarrow> string option \<Rightarrow> int \<Rightarrow> int \<Rightarrow> (string option \<times> int) \<times> cache" where
  "cache_get C website' file' port' now =
     (case vector_get (items C) website' file' port' now of
        (Some w, V') \<Rightarrow> ((Some (data w), data_size w), C\<lparr>items := V'\<rparr>)
      | (None, V') \<Rightarrow> ((None, 0), C\<lparr>items := V'\<rparr>))"

lemma vector_pop_from_length: "length (vector_pop_from a i) = length a"
proof (induction a i rule: vector_pop_from.induct)
  case (1 a i)
  then show ?case
    by (cases "i < length a") (simp_all add: vector_pop_from.simps [of a i])
qed

lemma vector_evict_LRU_shrinks:
  "vector_evict_LRU V = Inr (s, V') \<Longrightarrow> length (arr V') < length (arr V)"
  by (auto simp: vector_evict_LRU_def vector_pop_def vector_pop_from_length Let_def
      split: if_splits sum.splits)

text \<open>The \<^verbatim>\<open>while\<close> loop of \<^verbatim>\<open>cache_insert\<close>.\<close>

function cache_insert_evict :: "cache \<Rightarrow> int \<Rightarrow> error + cache" where
  "cache_insert_evict C dataSize =
     (if size_c C + dataSize > MAX_CACHE_SIZE then
        (case vector_evict_LRU (items C) of
           Inl e \<Rightarrow> Inl e
         | Inr (s, V') \<Rightarrow> cache_insert_evict (C\<lparr>items := V', size_c := size_c C - s\<rparr>) dataSize)
      else Inr C)"
  by pat_completeness auto
termination
proof (relation "measure (\<lambda>(C, _). length (arr (items C)))")
  show "wf (measure (\<lambda>(C, _). length (arr (items C))))"
    by simp
next
  fix C :: cache and dataSize :: int and x2 :: "int \<times> vector" and s :: int and V' :: vector
  assume "vector_evict_LRU (items C) = Inr x2" and "(s, V') = x2"
  then have "length (arr V') < length (arr (items C))"
    using vector_evict_LRU_shrinks [of "items C" s V'] by simp
  then show "((C\<lparr>items := V', size_c := size_c C - s\<rparr>, dataSize), C, dataSize)
      \<in> measure (\<lambda>(C, _). length (arr (items C)))"
    by simp
qed

declare cache_insert_evict.simps [simp del]

definition cache_insert ::
  "cache \<Rightarrow> string \<Rightarrow> string \<Rightarrow> int \<Rightarrow> string \<Rightarrow> int \<Rightarrow> int \<Rightarrow> error + cache" where
  "cache_insert C website' file' port' data' dataSize now =
     (let w = web_data_new website' file' port' data' dataSize now
      in case cache_insert_evict C dataSize of
           Inl e \<Rightarrow> Inl e
         | Inr C' \<Rightarrow>
             Inr (C'\<lparr>items := vector_push_back (items C') w, size_c := size_c C' + dataSize\<rparr>))"

subsection \<open>Properties of the vector and cache operations\<close>


lemma vector_get_from_miss:
  "(\<And>k. i \<le> k \<Longrightarrow> k < length (arr V) \<Longrightarrow> \<not> web_data_equals (arr V ! k) ws fl p)
   \<Longrightarrow> vector_get_from V i ws fl p now = (None, V)"
proof (induction V i ws fl p now rule: vector_get_from.induct)
  case (1 V i ws fl p now)
  show ?case
  proof (cases "i < length (arr V)")
    case True
    with "1.prems" have ne: "\<not> web_data_equals (arr V ! i) ws fl p" by simp
    have "vector_get_from V (i + 1) ws fl p now = (None, V)"
      using "1.IH" [OF True ne] "1.prems" by simp
    with True ne show ?thesis
      by (simp add: vector_get_from.simps [of V i])
  next
    case False
    then show ?thesis by (simp add: vector_get_from.simps [of V i])
  qed
qed

lemma vector_get_from_hit:
  "i \<le> k \<Longrightarrow> k < length (arr V) \<Longrightarrow> web_data_equals (arr V ! k) ws fl p
   \<Longrightarrow> (\<And>j. i \<le> j \<Longrightarrow> j < k \<Longrightarrow> \<not> web_data_equals (arr V ! j) ws fl p)
   \<Longrightarrow> vector_get_from V i ws fl p now =
        (Some (web_data_update_acc_time (arr V ! k) now),
         V\<lparr>arr := (arr V)[k := web_data_update_acc_time (arr V ! k) now]\<rparr>)"
proof (induction V i ws fl p now rule: vector_get_from.induct)
  case (1 V i ws fl p now)
  from "1.prems" have lt: "i < length (arr V)" by simp
  show ?case
  proof (cases "i = k")
    case True
    with "1.prems" lt show ?thesis
      by (simp add: vector_get_from.simps [of V k] Let_def)
  next
    case False
    with "1.prems" have ne: "\<not> web_data_equals (arr V ! i) ws fl p" and le: "i + 1 \<le> k"
      by simp_all
    have "vector_get_from V (i + 1) ws fl p now =
        (Some (web_data_update_acc_time (arr V ! k) now),
         V\<lparr>arr := (arr V)[k := web_data_update_acc_time (arr V ! k) now]\<rparr>)"
      using "1.IH" [OF lt ne le] "1.prems" by simp
    with lt ne show ?thesis
      by (simp add: vector_get_from.simps [of V i])
  qed
qed

lemma vector_pop_from_eq:
  "0 < i \<Longrightarrow> i \<le> length a \<Longrightarrow>
   vector_pop_from a i = take (i - 1) a @ drop i a @ [last a]"
proof (induction a i rule: vector_pop_from.induct)
  case (1 a i)
  show ?case
  proof (cases "i < length a")
    case True
    let ?a' = "a[i - 1 := a ! i]"
    have IH: "vector_pop_from ?a' (i + 1) = take i ?a' @ drop (i + 1) ?a' @ [last ?a']"
      using "1.IH" [OF True] True by simp
    have t: "take i ?a' = take (i - 1) a @ [a ! i]"
      using True "1.prems" by (simp add: take_Suc_conv_app_nth [of "i - 1", simplified] upd_conv_take_nth_drop)
    have d: "drop (i + 1) ?a' = drop (i + 1) a"
      using "1.prems" by simp
    have l: "last ?a' = last a"
      using True "1.prems" by (cases "a = []") (simp_all add: last_list_update)
    have "drop i a = a ! i # drop (i + 1) a"
      using True by (simp add: Cons_nth_drop_Suc)
    with IH t d l True show ?thesis
      by (simp add: vector_pop_from.simps [of a i])
  next
    case False
    with "1.prems" have "i = length a" by simp
    moreover have "a \<noteq> []" using "1.prems" by auto
    moreover have "take (length a - 1) a @ [last a] = a"
      using \<open>a \<noteq> []\<close> by (metis append_butlast_last_id butlast_conv_take)
    ultimately show ?thesis
      by (simp add: vector_pop_from.simps [of a "length a"])
  qed
qed

lemma vector_find_LRU_from_spec:
  "best < i \<Longrightarrow> i \<le> length a
   \<Longrightarrow> (\<And>j. j < i \<Longrightarrow> acc_time (a ! best) \<le> acc_time (a ! j))
   \<Longrightarrow> (\<And>j. j < best \<Longrightarrow> acc_time (a ! best) < acc_time (a ! j))
   \<Longrightarrow> vector_find_LRU_from a i best < length a
     \<and> (\<forall>j<length a. acc_time (a ! vector_find_LRU_from a i best) \<le> acc_time (a ! j))
     \<and> (\<forall>j<vector_find_LRU_from a i best.
           acc_time (a ! vector_find_LRU_from a i best) < acc_time (a ! j))"
proof (induction a i best rule: vector_find_LRU_from.induct)
  case (1 a i best)
  show ?case
  proof (cases "i < length a")
    case True
    let ?b = "if acc_time (a ! i) < acc_time (a ! best) then i else best"
    have a1: "?b < i + 1" using "1.prems" by simp
    have a2: "i + 1 \<le> length a" using True by simp
    have a3: "\<And>j. j < i + 1 \<Longrightarrow> acc_time (a ! ?b) \<le> acc_time (a ! j)"
      using "1.prems"(3) by (auto simp: less_Suc_eq) force
    have a4: "\<And>j. j < ?b \<Longrightarrow> acc_time (a ! ?b) < acc_time (a ! j)"
      using "1.prems"(3,4) by (auto split: if_splits) force
    from "1.IH" [OF True a1 a2 a3 a4] True show ?thesis
      by (simp add: vector_find_LRU_from.simps [of a i])
  next
    case False
    with "1.prems" have "i = length a" by simp
    with "1.prems" show ?thesis
      by (simp add: vector_find_LRU_from.simps [of a "length a"])
  qed
qed


lemma vector_pop_eq:
  "index < length (arr V) \<Longrightarrow>
   vector_pop V index = Inr (V\<lparr>arr := take index (arr V) @ drop (Suc index) (arr V)\<rparr>)"
  by (simp add: vector_pop_def vector_pop_from_eq)

definition is_LRU_index :: "web_data list \<Rightarrow> nat \<Rightarrow> bool" where
  "is_LRU_index a k \<longleftrightarrow>
     k < length a \<and> (\<forall>j<length a. acc_time (a ! k) \<le> acc_time (a ! j))
     \<and> (\<forall>j<k. acc_time (a ! k) < acc_time (a ! j))"

lemma vector_find_LRU_spec:
  assumes "arr V \<noteq> []"
  shows "\<exists>k. vector_find_LRU V = Inr k \<and> is_LRU_index (arr V) k"
proof -
  have "vector_find_LRU_from (arr V) 1 0 < length (arr V)
     \<and> (\<forall>j<length (arr V). acc_time (arr V ! vector_find_LRU_from (arr V) 1 0) \<le> acc_time (arr V ! j))
     \<and> (\<forall>j<vector_find_LRU_from (arr V) 1 0.
           acc_time (arr V ! vector_find_LRU_from (arr V) 1 0) < acc_time (arr V ! j))"
    using assms by (intro vector_find_LRU_from_spec) (simp_all add: Suc_le_eq)
  with assms show ?thesis
    by (simp add: vector_find_LRU_def is_LRU_index_def)
qed

lemma vector_evict_LRU_spec:
  assumes "arr V \<noteq> []"
  shows "\<exists>k. is_LRU_index (arr V) k \<and>
     vector_evict_LRU V =
       Inr (data_size (arr V ! k), V\<lparr>arr := take k (arr V) @ drop (Suc k) (arr V)\<rparr>)"
proof -
  from vector_find_LRU_spec [OF assms] obtain k
    where k: "vector_find_LRU V = Inr k" "is_LRU_index (arr V) k" by blast
  then have "k < length (arr V)" by (simp add: is_LRU_index_def)
  with k assms show ?thesis
    by (auto simp: vector_evict_LRU_def vector_pop_eq Let_def)
qed

lemma cache_insert_evict_fits:
  "cache_insert_evict C dataSize = Inr C' \<Longrightarrow> size_c C' + dataSize \<le> MAX_CACHE_SIZE"
proof (induction C dataSize rule: cache_insert_evict.induct)
  case (1 C dataSize)
  show ?case
  proof (cases "size_c C + dataSize > MAX_CACHE_SIZE")
    case True
    with "1.prems" obtain s V' where
      ev: "vector_evict_LRU (items C) = Inr (s, V')" and
      rec: "cache_insert_evict (C\<lparr>items := V', size_c := size_c C - s\<rparr>) dataSize = Inr C'"
      by (auto simp: cache_insert_evict.simps [of C dataSize] split: sum.splits)
    from "1.IH" [OF True ev refl rec] show ?thesis .
  next
    case False
    with "1.prems" show ?thesis
      by (simp add: cache_insert_evict.simps [of C dataSize])
  qed
qed

definition total_size :: "cache \<Rightarrow> int" where
  "total_size C = sum_list (map data_size (arr (items C)))"

definition cache_inv :: "cache \<Rightarrow> bool" where
  "cache_inv C \<longleftrightarrow>
     size_c C = total_size C \<and> list_all (\<lambda>s. 0 \<le> s) (map data_size (arr (items C)))"

lemma sum_list_remove_nth:
  "k < length a \<Longrightarrow>
   sum_list (map f (take k a @ drop (Suc k) a)) = sum_list (map f a) - (f (a ! k) :: int)"
proof -
  assume "k < length a"
  then have "a = take k a @ a ! k # drop (Suc k) a"
    by (simp add: id_take_nth_drop)
  then have "sum_list (map f a) = sum_list (map f (take k a @ a ! k # drop (Suc k) a))"
    by simp
  then show ?thesis by simp
qed

lemma cache_insert_evict_total:
  "cache_inv C \<Longrightarrow> dataSize \<le> MAX_CACHE_SIZE \<Longrightarrow>
   \<exists>C'. cache_insert_evict C dataSize = Inr C' \<and> cache_inv C'
     \<and> capacity (items C') = capacity (items C)"
proof (induction C dataSize rule: cache_insert_evict.induct)
  case (1 C dataSize)
  show ?case
  proof (cases "size_c C + dataSize > MAX_CACHE_SIZE")
    case True
    have ne: "arr (items C) \<noteq> []"
    proof
      assume "arr (items C) = []"
      with "1.prems" have "size_c C = 0" by (simp add: cache_inv_def total_size_def)
      with True "1.prems" show False by simp
    qed
    from vector_evict_LRU_spec [OF ne] obtain k where
      k: "is_LRU_index (arr (items C)) k" and
      ev: "vector_evict_LRU (items C) =
            Inr (data_size (arr (items C) ! k),
                 (items C)\<lparr>arr := take k (arr (items C)) @ drop (Suc k) (arr (items C))\<rparr>)"
      by blast
    let ?V' = "(items C)\<lparr>arr := take k (arr (items C)) @ drop (Suc k) (arr (items C))\<rparr>"
    let ?C1 = "C\<lparr>items := ?V', size_c := size_c C - data_size (arr (items C) ! k)\<rparr>"
    from k have klt: "k < length (arr (items C))" by (simp add: is_LRU_index_def)
    have "set (take k (arr (items C)) @ drop (Suc k) (arr (items C))) \<subseteq> set (arr (items C))"
      by (auto dest: in_set_takeD in_set_dropD)
    with "1.prems" have pos: "list_all (\<lambda>s. 0 \<le> s)
        (map data_size (take k (arr (items C)) @ drop (Suc k) (arr (items C))))"
      unfolding cache_inv_def list_all_iff by auto
    have "total_size ?C1 = total_size C - data_size (arr (items C) ! k)"
      unfolding total_size_def using sum_list_remove_nth [OF klt, of data_size] by simp
    with "1.prems" pos have inv1: "cache_inv ?C1"
      by (simp add: cache_inv_def)
    from "1.IH" [OF True ev refl inv1 "1.prems"(2)] obtain C' where
      "cache_insert_evict ?C1 dataSize = Inr C'" "cache_inv C'"
      "capacity (items C') = capacity (items ?C1)" by blast
    with True ev show ?thesis
      by (simp add: cache_insert_evict.simps [of C dataSize])
  next
    case False
    with "1.prems" show ?thesis
      by (simp add: cache_insert_evict.simps [of C dataSize])
  qed
qed


lemma map_update_same: "i < length xs \<Longrightarrow> (map f xs)[i := f (xs ! i)] = map f xs"
  by (simp add: list_eq_iff_nth_eq nth_list_update)

lemma vector_get_from_sizes:
  "vector_get_from V i ws fl p now = (r, V') \<Longrightarrow>
   map data_size (arr V') = map data_size (arr V) \<and> capacity V' = capacity V"
proof (induction V i ws fl p now rule: vector_get_from.induct)
  case (1 V i ws fl p now)
  show ?case
  proof (cases "i < length (arr V) \<and> \<not> web_data_equals (arr V ! i) ws fl p")
    case True
    with "1.prems" have "vector_get_from V (i + 1) ws fl p now = (r, V')"
      by (simp add: vector_get_from.simps [of V i])
    with "1.IH" True show ?thesis by simp
  next
    case False
    with "1.prems" show ?thesis
      by (auto simp: vector_get_from.simps [of V i] Let_def web_data_update_acc_time_def
          map_update map_update_same split: if_splits)
  qed
qed

lemma cache_get_inv:
  assumes "cache_get C ws fl p now = (r, C')"
  shows "total_size C' = total_size C \<and> size_c C' = size_c C
         \<and> map data_size (arr (items C')) = map data_size (arr (items C))"
proof -
  obtain w V' where v: "vector_get_from (items C) 0 ws fl p now = (w, V')"
    by (cases "vector_get_from (items C) 0 ws fl p now")
  with assms have C': "C' = C\<lparr>items := V'\<rparr>"
    by (cases w) (auto simp: cache_get_def vector_get_def)
  from vector_get_from_sizes [OF v] C' show ?thesis
    by (simp add: total_size_def)
qed

lemma cache_insert_inv:
  assumes "cache_inv C" and "0 \<le> dataSize" and "dataSize \<le> MAX_CACHE_SIZE"
  shows "\<exists>C'. cache_insert C ws fl p dat dataSize now = Inr C' \<and> cache_inv C'
           \<and> total_size C' \<le> MAX_CACHE_SIZE"
proof -
  from cache_insert_evict_total [OF assms(1,3)] obtain C1 where
    C1: "cache_insert_evict C dataSize = Inr C1" "cache_inv C1" by blast
  from cache_insert_evict_fits [OF C1(1)] have fits: "size_c C1 + dataSize \<le> MAX_CACHE_SIZE" .
  let ?w = "web_data_new ws fl p dat dataSize now"
  let ?C' = "C1\<lparr>items := vector_push_back (items C1) ?w, size_c := size_c C1 + dataSize\<rparr>"
  have arr: "arr (items ?C') = arr (items C1) @ [?w]"
    by (simp add: vector_push_back_def vector_resize_def Let_def)
  have ds: "data_size ?w = dataSize"
    by (simp add: web_data_new_def web_data_update_acc_time_def)
  from C1(2) assms(2) have "cache_inv ?C'"
    unfolding cache_inv_def total_size_def arr by (simp add: ds)
  moreover from this fits have "total_size ?C' \<le> MAX_CACHE_SIZE"
    by (simp add: cache_inv_def)
  moreover have "cache_insert C ws fl p dat dataSize now = Inr ?C'"
    using C1(1) by (simp add: cache_insert_def Let_def)
  ultimately show ?thesis by blast
qed

inductive reachable :: "cache \<Rightarrow> bool" where
  reach_new: "reachable cache_new"
| reach_insert:
    "reachable C \<Longrightarrow> 0 \<le> dataSize \<Longrightarrow> dataSize \<le> MAX_CACHE_SIZE \<Longrightarrow>
     cache_insert C ws fl p dat dataSize now = Inr C' \<Longrightarrow> reachable C'"
| reach_get:
    "reachable C \<Longrightarrow> cache_get C ws' fl' p now = (r, C') \<Longrightarrow> reachable C'"

lemma reachable_inv: "reachable C \<Longrightarrow> cache_inv C \<and> total_size C \<le> MAX_CACHE_SIZE"
proof (induction rule: reachable.induct)
  case reach_new
  show ?case
    by (simp add: cache_new_def vector_new_def cache_inv_def total_size_def MAX_CACHE_SIZE_def)
next
  case (reach_insert C dataSize ws fl p dat now C')
  then have "cache_inv C" by simp
  from cache_insert_inv [OF this reach_insert.hyps(2,3), of ws fl p dat now] reach_insert.hyps(4)
  show ?case by auto
next
  case (reach_get C ws' fl' p now r C')
  from cache_get_inv [OF reach_get.hyps(2)] reach_get.IH show ?case
    by (simp add: cache_inv_def)
qed

text \<open>
  \<^bold>\<open>Claim C3.\<close> Starting from the empty cache, after every insert of an object of size
  between 0 and \<open>MAX_CACHE_SIZE\<close> and after every lookup, the sum of the sizes of the
  cached objects is at most \<open>MAX_CACHE_SIZE\<close>. The field \<open>size_c\<close> equals that sum, so
  the loop of \<^verbatim>\<open>cache_insert\<close> stops before the vector is empty: every such insert
  returns, and no \<^verbatim>\<open>assert\<close> of \<^verbatim>\<open>vector_evict_LRU\<close> fires. All sizes stay in
  \<open>0 .. MAX_CACHE_SIZE\<close>, so no sum computed by the C code leaves the range of
  \<^verbatim>\<open>int\<close>.
\<close>

theorem cache_size_bounded:
  assumes "reachable C"
  shows "total_size C \<le> MAX_CACHE_SIZE \<and> size_c C = total_size C
       \<and> (\<forall>ws fl p dat dataSize now. 0 \<le> dataSize \<and> dataSize \<le> MAX_CACHE_SIZE \<longrightarrow>
            (\<exists>C'. cache_insert C ws fl p dat dataSize now = Inr C'
                 \<and> total_size C' \<le> MAX_CACHE_SIZE))"
proof -
  from reachable_inv [OF assms] have inv: "cache_inv C" and le: "total_size C \<le> MAX_CACHE_SIZE"
    by simp_all
  have "\<exists>C'. cache_insert C ws fl p dat dataSize now = Inr C' \<and> total_size C' \<le> MAX_CACHE_SIZE"
    if "0 \<le> dataSize" "dataSize \<le> MAX_CACHE_SIZE" for ws fl p dat dataSize now
    using cache_insert_inv [OF inv that, of ws fl p dat now] by blast
  with inv le show ?thesis by (simp add: cache_inv_def)
qed


text \<open>
  \<^bold>\<open>Claim C4.\<close> \<^verbatim>\<open>cache_insert\<close> evicts nothing when \<open>size_c C + dataSize\<close> fits the
  budget: the loop returns the cache as it is and the new entry is appended. When it
  must make room and the vector is not empty, the entry at some index \<open>k\<close> is evicted
  where \<open>k\<close> has the minimal access time and every earlier index has a strictly
  larger one (the first minimum of the scan); the entry is removed, its size is
  subtracted, and both the loop and \<^verbatim>\<open>cache_insert\<close> go on from that state as from
  a fresh call. (Making room in an empty vector fails the \<^verbatim>\<open>assert\<close> of
  \<^verbatim>\<open>vector_evict_LRU\<close>.) So eviction repeats exactly until the total plus the new
  size fits the budget, and whenever the insert returns, the total after it is
  within the budget.
\<close>

theorem cache_insert_evicts_LRU:
  "(size_c C + dataSize \<le> MAX_CACHE_SIZE \<longrightarrow>
       cache_insert_evict C dataSize = Inr C
     \<and> cache_insert C ws fl p dat dataSize now =
         Inr (C\<lparr>items := vector_push_back (items C) (web_data_new ws fl p dat dataSize now),
                size_c := size_c C + dataSize\<rparr>))
   \<and> (size_c C + dataSize > MAX_CACHE_SIZE \<and> arr (items C) = [] \<longrightarrow>
       cache_insert_evict C dataSize = Inl AssertFail
     \<and> cache_insert C ws fl p dat dataSize now = Inl AssertFail)
   \<and> (size_c C + dataSize > MAX_CACHE_SIZE \<and> arr (items C) \<noteq> [] \<longrightarrow>
       (\<exists>k. k < length (arr (items C))
          \<and> (\<forall>j<length (arr (items C)).
                acc_time (arr (items C) ! k) \<le> acc_time (arr (items C) ! j))
          \<and> (\<forall>j<k. acc_time (arr (items C) ! k) < acc_time (arr (items C) ! j))
          \<and> vector_evict_LRU (items C) =
               Inr (data_size (arr (items C) ! k),
                    (items C)\<lparr>arr := take k (arr (items C)) @ drop (Suc k) (arr (items C))\<rparr>)
          \<and> cache_insert_evict C dataSize =
               cache_insert_evict
                 (C\<lparr>items := (items C)\<lparr>arr := take k (arr (items C))
                                                 @ drop (Suc k) (arr (items C))\<rparr>,
                    size_c := size_c C - data_size (arr (items C) ! k)\<rparr>) dataSize
          \<and> cache_insert C ws fl p dat dataSize now =
               cache_insert
                 (C\<lparr>items := (items C)\<lparr>arr := take k (arr (items C))
                                                 @ drop (Suc k) (arr (items C))\<rparr>,
                    size_c := size_c C - data_size (arr (items C) ! k)\<rparr>)
                 ws fl p dat dataSize now))
   \<and> (\<forall>C'. cache_insert_evict C dataSize = Inr C' \<longrightarrow>
          size_c C' + dataSize \<le> MAX_CACHE_SIZE)
   \<and> (\<forall>C'. cache_insert C ws fl p dat dataSize now = Inr C' \<longrightarrow>
          size_c C' \<le> MAX_CACHE_SIZE)"
proof (intro conjI impI allI)
  assume fit: "size_c C + dataSize \<le> MAX_CACHE_SIZE"
  then show stop: "cache_insert_evict C dataSize = Inr C"
    by (simp add: cache_insert_evict.simps [of C dataSize])
  then show "cache_insert C ws fl p dat dataSize now =
         Inr (C\<lparr>items := vector_push_back (items C) (web_data_new ws fl p dat dataSize now),
                size_c := size_c C + dataSize\<rparr>)"
    by (simp add: cache_insert_def Let_def)
next
  assume h: "size_c C + dataSize > MAX_CACHE_SIZE \<and> arr (items C) = []"
  then show fail: "cache_insert_evict C dataSize = Inl AssertFail"
    by (simp add: cache_insert_evict.simps [of C dataSize] vector_evict_LRU_def)
  then show "cache_insert C ws fl p dat dataSize now = Inl AssertFail"
    by (simp add: cache_insert_def Let_def)
next
  assume h: "size_c C + dataSize > MAX_CACHE_SIZE \<and> arr (items C) \<noteq> []"
  then have over: "size_c C + dataSize > MAX_CACHE_SIZE" and ne: "arr (items C) \<noteq> []"
    by simp_all
  from vector_evict_LRU_spec [OF ne] obtain k where
    k: "is_LRU_index (arr (items C)) k" and
    ev: "vector_evict_LRU (items C) =
          Inr (data_size (arr (items C) ! k),
               (items C)\<lparr>arr := take k (arr (items C)) @ drop (Suc k) (arr (items C))\<rparr>)"
    by blast
  have step: "cache_insert_evict C dataSize =
          cache_insert_evict
            (C\<lparr>items := (items C)\<lparr>arr := take k (arr (items C)) @ drop (Suc k) (arr (items C))\<rparr>,
               size_c := size_c C - data_size (arr (items C) ! k)\<rparr>) dataSize"
    using over ev by (simp add: cache_insert_evict.simps [of C dataSize])
  have ins: "cache_insert C ws fl p dat dataSize now =
          cache_insert
            (C\<lparr>items := (items C)\<lparr>arr := take k (arr (items C)) @ drop (Suc k) (arr (items C))\<rparr>,
               size_c := size_c C - data_size (arr (items C) ! k)\<rparr>) ws fl p dat dataSize now"
    unfolding cache_insert_def by (simp only: step)
  from k ev step ins show "\<exists>k. k < length (arr (items C))
          \<and> (\<forall>j<length (arr (items C)).
                acc_time (arr (items C) ! k) \<le> acc_time (arr (items C) ! j))
          \<and> (\<forall>j<k. acc_time (arr (items C) ! k) < acc_time (arr (items C) ! j))
          \<and> vector_evict_LRU (items C) =
               Inr (data_size (arr (items C) ! k),
                    (items C)\<lparr>arr := take k (arr (items C)) @ drop (Suc k) (arr (items C))\<rparr>)
          \<and> cache_insert_evict C dataSize =
               cache_insert_evict
                 (C\<lparr>items := (items C)\<lparr>arr := take k (arr (items C))
                                                 @ drop (Suc k) (arr (items C))\<rparr>,
                    size_c := size_c C - data_size (arr (items C) ! k)\<rparr>) dataSize
          \<and> cache_insert C ws fl p dat dataSize now =
               cache_insert
                 (C\<lparr>items := (items C)\<lparr>arr := take k (arr (items C))
                                                 @ drop (Suc k) (arr (items C))\<rparr>,
                    size_c := size_c C - data_size (arr (items C) ! k)\<rparr>)
                 ws fl p dat dataSize now"
    unfolding is_LRU_index_def by blast
next
  fix C' assume "cache_insert_evict C dataSize = Inr C'"
  then show "size_c C' + dataSize \<le> MAX_CACHE_SIZE"
    by (rule cache_insert_evict_fits)
next
  fix C' assume "cache_insert C ws fl p dat dataSize now = Inr C'"
  then obtain C1 where C1: "cache_insert_evict C dataSize = Inr C1"
    and C': "size_c C' = size_c C1 + dataSize"
    by (auto simp: cache_insert_def Let_def split: sum.splits)
  from cache_insert_evict_fits [OF C1] C' show "size_c C' \<le> MAX_CACHE_SIZE"
    by simp
qed

text \<open>
  \<^bold>\<open>Claim C7.\<close> A lookup whose first matching entry (equal host, equal path, equal
  port) is at index \<open>k\<close> returns that entry's bytes and size, and the cache it leaves
  differs from the old one only in that entry's access time, which is the tick read
  by the lookup. A lookup that matches no entry (or is given a null host or path)
  returns \<^verbatim>\<open>NULL\<close> and size 0 and leaves the cache as it was.
\<close>

theorem cache_get_stamps:
  "(k < length (arr (items C))
      \<and> website (arr (items C) ! k) = ws \<and> file_w (arr (items C) ! k) = fl
      \<and> port (arr (items C) ! k) = p
      \<and> (\<forall>j<k. \<not> (website (arr (items C) ! j) = ws \<and> file_w (arr (items C) ! j) = fl
                    \<and> port (arr (items C) ! j) = p))
    \<longrightarrow> cache_get C (Some ws) (Some fl) p now =
          ((Some (data (arr (items C) ! k)), data_size (arr (items C) ! k)),
           C\<lparr>items := (items C)\<lparr>arr := (arr (items C))[k := (arr (items C) ! k)\<lparr>acc_time := now\<rparr>]\<rparr>\<rparr>))
   \<and> ((\<forall>j<length (arr (items C)).
          \<not> (website (arr (items C) ! j) = ws \<and> file_w (arr (items C) ! j) = fl
             \<and> port (arr (items C) ! j) = p))
    \<longrightarrow> cache_get C (Some ws) (Some fl) p now = ((None, 0), C))
   \<and> cache_get C None fl' p now = ((None, 0), C)
   \<and> cache_get C ws' None p now = ((None, 0), C)"
proof (intro conjI impI)
  assume h: "k < length (arr (items C))
      \<and> website (arr (items C) ! k) = ws \<and> file_w (arr (items C) ! k) = fl
      \<and> port (arr (items C) ! k) = p
      \<and> (\<forall>j<k. \<not> (website (arr (items C) ! j) = ws \<and> file_w (arr (items C) ! j) = fl
                    \<and> port (arr (items C) ! j) = p))"
  have "vector_get_from (items C) 0 (Some ws) (Some fl) p now =
        (Some (web_data_update_acc_time (arr (items C) ! k) now),
         (items C)\<lparr>arr := (arr (items C))[k := web_data_update_acc_time (arr (items C) ! k) now]\<rparr>)"
    using h by (intro vector_get_from_hit) (auto simp: web_data_equals_def)
  then show "cache_get C (Some ws) (Some fl) p now =
          ((Some (data (arr (items C) ! k)), data_size (arr (items C) ! k)),
           C\<lparr>items := (items C)\<lparr>arr := (arr (items C))[k := (arr (items C) ! k)\<lparr>acc_time := now\<rparr>]\<rparr>\<rparr>)"
    by (simp add: cache_get_def vector_get_def web_data_update_acc_time_def)
next
  assume h: "\<forall>j<length (arr (items C)).
          \<not> (website (arr (items C) ! j) = ws \<and> file_w (arr (items C) ! j) = fl
             \<and> port (arr (items C) ! j) = p)"
  have "vector_get_from (items C) 0 (Some ws) (Some fl) p now = (None, items C)"
    using h by (intro vector_get_from_miss) (auto simp: web_data_equals_def)
  then show "cache_get C (Some ws) (Some fl) p now = ((None, 0), C)"
    by (simp add: cache_get_def vector_get_def)
next
  have "vector_get_from (items C) 0 None fl' p now = (None, items C)"
    by (intro vector_get_from_miss) (simp add: web_data_equals_def)
  then show "cache_get C None fl' p now = ((None, 0), C)"
    by (simp add: cache_get_def vector_get_def)
next
  have "vector_get_from (items C) 0 ws' None p now = (None, items C)"
    by (intro vector_get_from_miss) (simp add: web_data_equals_def split: option.splits)
  then show "cache_get C ws' None p now = ((None, 0), C)"
    by (simp add: cache_get_def vector_get_def)
qed


definition entry_content :: "web_data \<Rightarrow> string \<times> string \<times> int \<times> string \<times> int" where
  "entry_content w = (website w, file_w w, port w, data w, data_size w)"

fun find_content ::
  "(string \<times> string \<times> int \<times> string \<times> int) list \<Rightarrow> string option \<Rightarrow> string option \<Rightarrow> int
   \<Rightarrow> string option \<times> int" where
  "find_content [] ws fl p = (None, 0)"
| "find_content ((w, f, q, d, s) # xs) ws fl p =
     (if ws = Some w \<and> fl = Some f \<and> p = q then (Some d, s) else find_content xs ws fl p)"

fun cache_gets :: "cache \<Rightarrow> (string option \<times> string option \<times> int \<times> int) list \<Rightarrow> cache" where
  "cache_gets C [] = C"
| "cache_gets C ((ws, fl, p, now) # qs) = cache_gets (snd (cache_get C ws fl p now)) qs"

lemma web_data_equals_content:
  "web_data_equals w ws fl p \<longleftrightarrow>
     ws = Some (website w) \<and> fl = Some (file_w w) \<and> p = port w"
  by (auto simp: web_data_equals_def split: option.splits)

lemma vector_get_from_content:
  "vector_get_from V i ws fl p now = (r, V') \<Longrightarrow>
   map entry_content (arr V') = map entry_content (arr V)"
proof (induction V i ws fl p now rule: vector_get_from.induct)
  case (1 V i ws fl p now)
  show ?case
  proof (cases "i < length (arr V) \<and> \<not> web_data_equals (arr V ! i) ws fl p")
    case True
    with "1.prems" have "vector_get_from V (i + 1) ws fl p now = (r, V')"
      by (simp add: vector_get_from.simps [of V i])
    with "1.IH" True show ?thesis by simp
  next
    case False
    have "entry_content (web_data_update_acc_time (arr V ! i) now) = entry_content (arr V ! i)"
      by (simp add: entry_content_def web_data_update_acc_time_def)
    with False "1.prems" show ?thesis
      by (auto simp: vector_get_from.simps [of V i] Let_def map_update map_update_same
          split: if_splits)
  qed
qed

lemma find_content_Cons:
  "find_content (entry_content w # xs) ws fl p =
     (if web_data_equals w ws fl p then (Some (data w), data_size w)
      else find_content xs ws fl p)"
  by (auto simp: entry_content_def web_data_equals_content)

lemma vector_get_from_result:
  "(case fst (vector_get_from V i ws fl p now) of
      Some w \<Rightarrow> (Some (data w), data_size w) | None \<Rightarrow> (None, 0))
   = find_content (map entry_content (drop i (arr V))) ws fl p"
proof (induction V i ws fl p now rule: vector_get_from.induct)
  case (1 V i ws fl p now)
  show ?case
  proof (cases "i < length (arr V)")
    case True
    then have d: "drop i (arr V) = arr V ! i # drop (i + 1) (arr V)"
      by (simp add: Cons_nth_drop_Suc)
    show ?thesis
    proof (cases "web_data_equals (arr V ! i) ws fl p")
      case eq: True
      with True have "fst (vector_get_from V i ws fl p now)
          = Some (web_data_update_acc_time (arr V ! i) now)"
        by (simp add: vector_get_from.simps [of V i] Let_def)
      with eq show ?thesis
        unfolding d by (simp add: find_content_Cons web_data_update_acc_time_def)
    next
      case ne: False
      with True have "vector_get_from V i ws fl p now = vector_get_from V (i + 1) ws fl p now"
        by (simp add: vector_get_from.simps [of V i])
      with "1.IH" [OF True ne] ne show ?thesis
        unfolding d by (simp add: find_content_Cons)
    qed
  next
    case False
    then show ?thesis by (simp add: vector_get_from.simps [of V i])
  qed
qed

lemma cache_get_result:
  "fst (cache_get C ws fl p now) = find_content (map entry_content (arr (items C))) ws fl p"
proof -
  obtain r V' where v: "vector_get_from (items C) 0 ws fl p now = (r, V')"
    by (cases "vector_get_from (items C) 0 ws fl p now")
  with vector_get_from_result [of "items C" 0 ws fl p now] show ?thesis
    by (cases r) (simp_all add: cache_get_def vector_get_def)
qed

lemma cache_get_content:
  "map entry_content (arr (items (snd (cache_get C ws fl p now)))) =
   map entry_content (arr (items C))"
proof -
  obtain r V' where v: "vector_get_from (items C) 0 ws fl p now = (r, V')"
    by (cases "vector_get_from (items C) 0 ws fl p now")
  from vector_get_from_content [OF v] v show ?thesis
    by (simp add: cache_get_def vector_get_def split: option.splits)
qed

lemma cache_gets_content:
  "map entry_content (arr (items (cache_gets C qs))) = map entry_content (arr (items C))"
  by (induction C qs rule: cache_gets.induct) (simp_all add: cache_get_content)

lemma find_content_first:
  "k < length xs \<Longrightarrow> website (xs ! k) = ws \<Longrightarrow> file_w (xs ! k) = fl \<Longrightarrow> port (xs ! k) = p
   \<Longrightarrow> (\<And>j. j < k \<Longrightarrow> \<not> (website (xs ! j) = ws \<and> file_w (xs ! j) = fl \<and> port (xs ! j) = p))
   \<Longrightarrow> find_content (map entry_content (xs @ zs)) (Some ws) (Some fl) p
       = (Some (data (xs ! k)), data_size (xs ! k))"
proof (induction xs arbitrary: k)
  case Nil
  then show ?case by simp
next
  case (Cons x xs)
  show ?case
  proof (cases k)
    case 0
    with Cons.prems show ?thesis
      by (simp add: find_content_Cons web_data_equals_content)
  next
    case (Suc k')
    with Cons.prems(5) [of 0] have ne: "\<not> (website x = ws \<and> file_w x = fl \<and> port x = p)"
      by simp
    have "find_content (map entry_content (xs @ zs)) (Some ws) (Some fl) p
       = (Some (data (xs ! k')), data_size (xs ! k'))"
    proof (rule Cons.IH)
      fix j assume "j < k'"
      with Cons.prems(5) [of "Suc j"] Suc
      show "\<not> (website (xs ! j) = ws \<and> file_w (xs ! j) = fl \<and> port (xs ! j) = p)" by simp
    qed (use Cons.prems Suc in simp_all)
    with ne Suc show ?thesis
      by (auto simp: find_content_Cons web_data_equals_content)
  qed
qed

lemma remove_nth_subseq: "subseq (take k a @ drop (Suc k) a) a"
proof (cases "k < length a")
  case True
  have "subseq (take k a @ drop (Suc k) a) (take k a @ a ! k # drop (Suc k) a)"
    by (intro list_emb_append_mono list_emb_Cons) simp_all
  with True show ?thesis by (simp add: id_take_nth_drop [symmetric])
next
  case False
  then show ?thesis by simp
qed

lemma cache_insert_evict_subseq:
  "cache_insert_evict C dataSize = Inr C' \<Longrightarrow>
   subseq (arr (items C')) (arr (items C))
   \<and> (size_c C + dataSize \<le> MAX_CACHE_SIZE \<longrightarrow> C' = C)"
proof (induction C dataSize arbitrary: C' rule: cache_insert_evict.induct)
  case (1 C dataSize)
  show ?case
  proof (cases "size_c C + dataSize > MAX_CACHE_SIZE")
    case True
    with "1.prems" obtain s V' where
      ev: "vector_evict_LRU (items C) = Inr (s, V')" and
      rec: "cache_insert_evict (C\<lparr>items := V', size_c := size_c C - s\<rparr>) dataSize = Inr C'"
      by (auto simp: cache_insert_evict.simps [of C dataSize] split: sum.splits)
    from ev have ne: "arr (items C) \<noteq> []"
      by (auto simp: vector_evict_LRU_def)
    from vector_evict_LRU_spec [OF ne] ev obtain k where
      "arr V' = take k (arr (items C)) @ drop (Suc k) (arr (items C))" by auto
    then have "subseq (arr V') (arr (items C))"
      by (simp add: remove_nth_subseq)
    moreover from "1.IH" [OF True ev refl rec] have "subseq (arr (items C')) (arr V')"
      by simp
    ultimately have "subseq (arr (items C')) (arr (items C))"
      by (rule subseq_order.trans [rotated])
    with True show ?thesis by simp
  next
    case False
    with "1.prems" show ?thesis
      by (simp add: cache_insert_evict.simps [of C dataSize])
  qed
qed

text \<open>
  \<^bold>\<open>Claim C10 (amended).\<close> An insert that returns never replaces or updates an entry:
  the entries \<open>ys\<close> that survive its evictions keep their order and contents (all of
  them when no eviction is needed), and the new entry, which carries the key given, is
  appended after them. Until the next insert, after any run of lookups, a lookup of that key
  returns the bytes of the first surviving entry with that key when there is one
  (the cache then holds at least two entries with the key, and the new entry is not
  the one returned), and the bytes of the new entry when no entry with that key has
  survived.
\<close>

theorem cache_insert_same_key:
  assumes "cache_insert C ws fl p dat dataSize now = Inr C'"
  shows "\<exists>ys. subseq ys (arr (items C))
     \<and> (size_c C + dataSize \<le> MAX_CACHE_SIZE \<longrightarrow> ys = arr (items C))
     \<and> arr (items C') = ys @ [web_data_new ws fl p dat dataSize now]
     \<and> website (web_data_new ws fl p dat dataSize now) = ws
     \<and> file_w (web_data_new ws fl p dat dataSize now) = fl
     \<and> port (web_data_new ws fl p dat dataSize now) = p
     \<and> (\<forall>k<length ys.
           website (ys ! k) = ws \<and> file_w (ys ! k) = fl \<and> port (ys ! k) = p
           \<and> (\<forall>j<k. \<not> (website (ys ! j) = ws \<and> file_w (ys ! j) = fl \<and> port (ys ! j) = p))
         \<longrightarrow> (\<forall>qs now'. fst (cache_get (cache_gets C' qs) (Some ws) (Some fl) p now')
                 = (Some (data (ys ! k)), data_size (ys ! k))))
     \<and> ((\<forall>j<length ys. \<not> (website (ys ! j) = ws \<and> file_w (ys ! j) = fl \<and> port (ys ! j) = p))
         \<longrightarrow> (\<forall>qs now'. fst (cache_get (cache_gets C' qs) (Some ws) (Some fl) p now')
                 = (Some (take (nat dataSize) dat), dataSize)))"
proof -
  let ?w = "web_data_new ws fl p dat dataSize now"
  from assms obtain C1 where
    C1: "cache_insert_evict C dataSize = Inr C1" and
    C': "C' = C1\<lparr>items := vector_push_back (items C1) ?w, size_c := size_c C1 + dataSize\<rparr>"
    by (auto simp: cache_insert_def Let_def split: sum.splits)
  let ?ys = "arr (items C1)"
  from cache_insert_evict_subseq [OF C1] have
    sub: "subseq ?ys (arr (items C))" and
    same: "size_c C + dataSize \<le> MAX_CACHE_SIZE \<longrightarrow> ?ys = arr (items C)"
    by auto
  have app: "arr (items C') = ?ys @ [?w]"
    by (simp add: C' vector_push_back_def vector_resize_def Let_def)
  have key: "website ?w = ws" "file_w ?w = fl" "port ?w = p"
    and dw: "data ?w = take (nat dataSize) dat" "data_size ?w = dataSize"
    by (simp_all add: web_data_new_def web_data_update_acc_time_def)
  have res: "fst (cache_get (cache_gets C' qs) (Some ws) (Some fl) p now')
        = find_content (map entry_content (?ys @ [?w])) (Some ws) (Some fl) p" for qs now'
    by (simp only: cache_get_result cache_gets_content app)
  have look: "fst (cache_get (cache_gets C' qs) (Some ws) (Some fl) p now')
                 = (Some (data (?ys ! k)), data_size (?ys ! k))"
    if "k < length ?ys" "website (?ys ! k) = ws" "file_w (?ys ! k) = fl" "port (?ys ! k) = p"
       "\<forall>j<k. \<not> (website (?ys ! j) = ws \<and> file_w (?ys ! j) = fl \<and> port (?ys ! j) = p)"
    for k qs now'
  proof -
    have "find_content (map entry_content (?ys @ [?w])) (Some ws) (Some fl) p
        = (Some (data (?ys ! k)), data_size (?ys ! k))"
      using that by (intro find_content_first) auto
    then show ?thesis by (simp only: res)
  qed
  have fresh: "fst (cache_get (cache_gets C' qs) (Some ws) (Some fl) p now')
                 = (Some (take (nat dataSize) dat), dataSize)"
    if none: "\<forall>j<length ?ys. \<not> (website (?ys ! j) = ws \<and> file_w (?ys ! j) = fl
                                      \<and> port (?ys ! j) = p)"
    for qs now'
  proof -
    have "find_content (map entry_content ((?ys @ [?w]) @ [])) (Some ws) (Some fl) p
        = (Some (data ((?ys @ [?w]) ! length ?ys)), data_size ((?ys @ [?w]) ! length ?ys))"
    proof (rule find_content_first)
      fix j assume "j < length ?ys"
      with none show "\<not> (website ((?ys @ [?w]) ! j) = ws \<and> file_w ((?ys @ [?w]) ! j) = fl
                           \<and> port ((?ys @ [?w]) ! j) = p)"
        by (simp add: nth_append)
    qed (simp_all add: key)
    then show ?thesis by (simp add: res dw)
  qed
  from sub same app key look fresh show ?thesis by blast
qed


subsection \<open>Concrete caches\<close>

definition page :: "char \<Rightarrow> nat \<Rightarrow> string" where
  "page c n = replicate n c"

definition entry_of :: "string \<Rightarrow> char \<Rightarrow> nat \<Rightarrow> int \<Rightarrow> web_data" where
  "entry_of host c n t =
     \<lparr>website = host, file_w = ''/'', port = 80, data = page c n, data_size = int n, acc_time = t\<rparr>"

definition dup_first :: cache where
  "dup_first = \<lparr>items = \<lparr>arr = [entry_of ''h'' CHR ''a'' 600000 1], capacity = 5\<rparr>, size_c = 600000\<rparr>"

definition dup_second :: cache where
  "dup_second = \<lparr>items = \<lparr>arr = [entry_of ''h'' CHR ''b'' 600000 2], capacity = 5\<rparr>, size_c = 600000\<rparr>"

definition lru_example :: cache where
  "lru_example =
     \<lparr>items = \<lparr>arr = [entry_of ''a.com'' CHR ''a'' 400000 5, entry_of ''b.com'' CHR ''b'' 300000 3,
                      entry_of ''c.com'' CHR ''c'' 300000 3], capacity = 5\<rparr>,
      size_c = 1000000\<rparr>"

lemmas cache_eval =
  cache_insert_def cache_insert_evict.simps vector_evict_LRU_def vector_find_LRU_def
  vector_find_LRU_from.simps vector_pop_def vector_pop_from.simps vector_push_back_def
  vector_resize_def web_data_new_def web_data_update_acc_time_def cache_new_def vector_new_def
  MAX_CACHE_SIZE_def entry_of_def page_def Let_def cache_get_def vector_get_def
  vector_get_from.simps web_data_equals_def

lemma dup_first_insert:
  "cache_insert cache_new ''h'' ''/'' 80 (page CHR ''a'' 600000) 600000 1 = Inr dup_first"
  by (simp add: cache_eval dup_first_def)

lemma dup_second_insert:
  "cache_insert dup_first ''h'' ''/'' 80 (page CHR ''b'' 600000) 600000 2 = Inr dup_second"
  by (simp add: cache_eval dup_first_def dup_second_def)

text \<open>
  The claim as first stated fails when the earlier entry is the one evicted: two
  objects of 600000 bytes with the same key do not fit the budget together, so the
  second insert evicts the first entry, one entry is left and the lookup returns the
  second object's bytes.
\<close>

theorem cache_insert_same_key_counterexample:
  "cache_insert cache_new ''h'' ''/'' 80 (page CHR ''a'' 600000) 600000 1 = Inr dup_first
   \<and> cache_insert dup_first ''h'' ''/'' 80 (page CHR ''b'' 600000) 600000 2 = Inr dup_second
   \<and> length (arr (items dup_second)) = 1
   \<and> fst (cache_get dup_second (Some ''h'') (Some ''/'') 80 3) = (Some (page CHR ''b'' 600000), 600000)
   \<and> page CHR ''b'' 600000 \<noteq> page CHR ''a'' 600000"
proof -
  have "length (arr (items dup_second)) = 1"
    by (simp add: dup_second_def)
  moreover have "fst (cache_get dup_second (Some ''h'') (Some ''/'') 80 3)
      = (Some (page CHR ''b'' 600000), 600000)"
    by (simp add: cache_eval dup_second_def)
  moreover have "page CHR ''b'' 600000 \<noteq> page CHR ''a'' 600000"
    by (simp add: page_def)
  ultimately show ?thesis
    using dup_first_insert dup_second_insert by simp
qed

theorem cache_size_bounded_witness:
  "reachable dup_second \<and> total_size dup_second \<le> MAX_CACHE_SIZE
   \<and> size_c dup_second = total_size dup_second"
proof -
  have "reachable dup_first"
    by (rule reach_insert [OF reach_new _ _ dup_first_insert]) (simp_all add: MAX_CACHE_SIZE_def)
  then have r: "reachable dup_second"
    by (rule reach_insert [OF _ _ _ dup_second_insert]) (simp_all add: MAX_CACHE_SIZE_def)
  from cache_size_bounded [OF r] r show ?thesis by simp
qed

text \<open>
  On \<open>lru_example\<close> (access times 5, 3, 3; 1000000 bytes) an insert of 100000 bytes
  evicts the entry at index 1, the first of the two oldest, and stops there: 700000
  bytes and the new object fit.
\<close>

theorem cache_insert_evicts_LRU_witness:
  "size_c lru_example + 100000 > MAX_CACHE_SIZE \<and> arr (items lru_example) \<noteq> []
   \<and> vector_evict_LRU (items lru_example) =
       Inr (300000, \<lparr>arr = [entry_of ''a.com'' CHR ''a'' 400000 5, entry_of ''c.com'' CHR ''c'' 300000 3],
                     capacity = 5\<rparr>)
   \<and> cache_insert lru_example ''d.com'' ''/'' 80 (page CHR ''d'' 100000) 100000 9 =
       Inr \<lparr>items = \<lparr>arr = [entry_of ''a.com'' CHR ''a'' 400000 5, entry_of ''c.com'' CHR ''c'' 300000 3,
                             entry_of ''d.com'' CHR ''d'' 100000 9], capacity = 5\<rparr>,
            size_c = 800000\<rparr>"
proof -
  let ?V' = "\<lparr>arr = [entry_of ''a.com'' CHR ''a'' 400000 5, entry_of ''c.com'' CHR ''c'' 300000 3],
              capacity = 5\<rparr>"
  let ?C1 = "lru_example\<lparr>items := ?V', size_c := size_c lru_example - 300000\<rparr>"
  have h1: "size_c lru_example + 100000 > MAX_CACHE_SIZE"
    by (simp add: lru_example_def MAX_CACHE_SIZE_def)
  have h2: "arr (items lru_example) \<noteq> []"
    by (simp add: lru_example_def)
  have ev: "vector_evict_LRU (items lru_example) = Inr (300000, ?V')"
    by (simp add: lru_example_def vector_evict_LRU_def vector_find_LRU_def
        vector_find_LRU_from.simps vector_pop_def vector_pop_from.simps Let_def)
       (simp add: entry_of_def)
  from cache_insert_evicts_LRU
    [of lru_example 100000 "''d.com''" "''/''" 80 "page CHR ''d'' 100000" 9] h1 h2
  obtain k where
    evk: "vector_evict_LRU (items lru_example) =
            Inr (data_size (arr (items lru_example) ! k),
                 (items lru_example)\<lparr>arr := take k (arr (items lru_example))
                                            @ drop (Suc k) (arr (items lru_example))\<rparr>)" and
    ins: "cache_insert lru_example ''d.com'' ''/'' 80 (page CHR ''d'' 100000) 100000 9 =
          cache_insert
            (lru_example\<lparr>items := (items lru_example)\<lparr>arr := take k (arr (items lru_example))
                                            @ drop (Suc k) (arr (items lru_example))\<rparr>,
               size_c := size_c lru_example - data_size (arr (items lru_example) ! k)\<rparr>)
            ''d.com'' ''/'' 80 (page CHR ''d'' 100000) 100000 9"
    by blast
  from ev evk have
    "data_size (arr (items lru_example) ! k) = 300000"
    "(items lru_example)\<lparr>arr := take k (arr (items lru_example))
                               @ drop (Suc k) (arr (items lru_example))\<rparr> = ?V'"
    by simp_all
  with ins have ins1:
    "cache_insert lru_example ''d.com'' ''/'' 80 (page CHR ''d'' 100000) 100000 9 =
     cache_insert ?C1 ''d.com'' ''/'' 80 (page CHR ''d'' 100000) 100000 9"
    by simp
  have fit: "size_c ?C1 + 100000 \<le> MAX_CACHE_SIZE"
    by (simp add: lru_example_def MAX_CACHE_SIZE_def)
  from cache_insert_evicts_LRU
    [of ?C1 100000 "''d.com''" "''/''" 80 "page CHR ''d'' 100000" 9] fit
  have "cache_insert ?C1 ''d.com'' ''/'' 80 (page CHR ''d'' 100000) 100000 9 =
      Inr (?C1\<lparr>items := vector_push_back (items ?C1)
                   (web_data_new ''d.com'' ''/'' 80 (page CHR ''d'' 100000) 100000 9),
               size_c := size_c ?C1 + 100000\<rparr>)"
    by blast
  also have "\<dots> = Inr \<lparr>items = \<lparr>arr = [entry_of ''a.com'' CHR ''a'' 400000 5,
                             entry_of ''c.com'' CHR ''c'' 300000 3,
                             entry_of ''d.com'' CHR ''d'' 100000 9], capacity = 5\<rparr>,
            size_c = 800000\<rparr>"
    by (simp add: lru_example_def vector_push_back_def web_data_new_def
        web_data_update_acc_time_def entry_of_def page_def)
  finally have "cache_insert ?C1 ''d.com'' ''/'' 80 (page CHR ''d'' 100000) 100000 9 =
      Inr \<lparr>items = \<lparr>arr = [entry_of ''a.com'' CHR ''a'' 400000 5,
                             entry_of ''c.com'' CHR ''c'' 300000 3,
                             entry_of ''d.com'' CHR ''d'' 100000 9], capacity = 5\<rparr>,
            size_c = 800000\<rparr>" .
  with ins1 h1 h2 ev show ?thesis by simp
qed

theorem cache_get_stamps_witness:
  "cache_get lru_example (Some ''b.com'') (Some ''/'') 80 9 =
     ((Some (page CHR ''b'' 300000), 300000),
      lru_example\<lparr>items := (items lru_example)\<lparr>arr :=
        [entry_of ''a.com'' CHR ''a'' 400000 5, entry_of ''b.com'' CHR ''b'' 300000 9,
         entry_of ''c.com'' CHR ''c'' 300000 3]\<rparr>\<rparr>)
   \<and> cache_get lru_example (Some ''d.com'') (Some ''/'') 80 9 = ((None, 0), lru_example)"
proof -
  have hit: "1 < length (arr (items lru_example))
      \<and> website (arr (items lru_example) ! 1) = ''b.com'' \<and> file_w (arr (items lru_example) ! 1) = ''/''
      \<and> port (arr (items lru_example) ! 1) = 80
      \<and> (\<forall>j<1. \<not> (website (arr (items lru_example) ! j) = ''b.com''
                     \<and> file_w (arr (items lru_example) ! j) = ''/''
                     \<and> port (arr (items lru_example) ! j) = 80))"
    by (simp add: lru_example_def entry_of_def)
  have miss: "\<forall>j<length (arr (items lru_example)).
          \<not> (website (arr (items lru_example) ! j) = ''d.com''
             \<and> file_w (arr (items lru_example) ! j) = ''/''
             \<and> port (arr (items lru_example) ! j) = 80)"
    by (simp add: lru_example_def entry_of_def nth_Cons split: nat.splits)
  have upd: "(arr (items lru_example))[1 := (arr (items lru_example) ! 1)\<lparr>acc_time := 9\<rparr>]
      = [entry_of ''a.com'' CHR ''a'' 400000 5, entry_of ''b.com'' CHR ''b'' 300000 9,
         entry_of ''c.com'' CHR ''c'' 300000 3]"
    by (simp add: lru_example_def entry_of_def)
  have d: "data (arr (items lru_example) ! 1) = page CHR ''b'' 300000"
     "data_size (arr (items lru_example) ! 1) = 300000"
    by (simp_all add: lru_example_def entry_of_def)
  from cache_get_stamps [of 1 lru_example "''b.com''" "''/''" 80 9] hit
  have "cache_get lru_example (Some ''b.com'') (Some ''/'') 80 9 =
          ((Some (data (arr (items lru_example) ! 1)), data_size (arr (items lru_example) ! 1)),
           lru_example\<lparr>items := (items lru_example)\<lparr>arr :=
             (arr (items lru_example))[1 := (arr (items lru_example) ! 1)\<lparr>acc_time := 9\<rparr>]\<rparr>\<rparr>)"
    by blast
  moreover from cache_get_stamps [of 0 lru_example "''d.com''" "''/''" 80 9] miss
  have "cache_get lru_example (Some ''d.com'') (Some ''/'') 80 9 = ((None, 0), lru_example)"
    by blast
  ultimately show ?thesis
    by (simp only: upd d)
qed


definition two_a :: cache where
  "two_a = \<lparr>items = \<lparr>arr = [\<lparr>website = ''h'', file_w = ''/'', port = 80, data = ''old'',
                                 data_size = 3, acc_time = 1\<rparr>], capacity = 5\<rparr>, size_c = 3\<rparr>"

definition two_b :: cache where
  "two_b = \<lparr>items = \<lparr>arr = [\<lparr>website = ''h'', file_w = ''/'', port = 80, data = ''old'',
                                 data_size = 3, acc_time = 1\<rparr>,
                               \<lparr>website = ''h'', file_w = ''/'', port = 80, data = ''new'',
                                 data_size = 3, acc_time = 2\<rparr>], capacity = 5\<rparr>, size_c = 6\<rparr>"

definition two_c :: cache where
  "two_c = \<lparr>items = \<lparr>arr = [\<lparr>website = ''h'', file_w = ''/'', port = 80, data = ''new'',
                                 data_size = 3, acc_time = 2\<rparr>], capacity = 5\<rparr>, size_c = 3\<rparr>"

theorem cache_insert_same_key_witness:
  "cache_insert two_a ''h'' ''/'' 80 ''new'' 3 2 = Inr two_b
   \<and> arr (items two_b) = arr (items two_a) @ [web_data_new ''h'' ''/'' 80 ''new'' 3 2]
   \<and> fst (cache_get two_b (Some ''h'') (Some ''/'') 80 7) = (Some ''old'', 3)
   \<and> cache_insert cache_new ''h'' ''/'' 80 ''new'' 3 2 = Inr two_c
   \<and> fst (cache_get two_c (Some ''h'') (Some ''/'') 80 7) = (Some ''new'', 3)"
proof -
  have h: "cache_insert two_a ''h'' ''/'' 80 ''new'' 3 2 = Inr two_b"
    by (simp add: cache_eval two_a_def two_b_def)
  from cache_insert_same_key [OF h] obtain ys where
    same: "size_c two_a + 3 \<le> MAX_CACHE_SIZE \<longrightarrow> ys = arr (items two_a)" and
    app: "arr (items two_b) = ys @ [web_data_new ''h'' ''/'' 80 ''new'' 3 2]" and
    look: "\<forall>k<length ys.
           website (ys ! k) = ''h'' \<and> file_w (ys ! k) = ''/'' \<and> port (ys ! k) = 80
           \<and> (\<forall>j<k. \<not> (website (ys ! j) = ''h'' \<and> file_w (ys ! j) = ''/'' \<and> port (ys ! j) = 80))
         \<longrightarrow> (\<forall>qs now'. fst (cache_get (cache_gets two_b qs) (Some ''h'') (Some ''/'') 80 now')
                 = (Some (data (ys ! k)), data_size (ys ! k)))"
    by blast
  from same have ys: "ys = arr (items two_a)"
    by (simp add: two_a_def MAX_CACHE_SIZE_def)
  from look [rule_format, of 0 "[]" 7] have old:
    "fst (cache_get two_b (Some ''h'') (Some ''/'') 80 7) = (Some ''old'', 3)"
    by (simp add: ys two_a_def)
  have h': "cache_insert cache_new ''h'' ''/'' 80 ''new'' 3 2 = Inr two_c"
    by (simp add: cache_eval two_c_def)
  from cache_insert_same_key [OF h'] obtain zs where
    sub: "subseq zs (arr (items cache_new))" and
    fresh: "(\<forall>j<length zs. \<not> (website (zs ! j) = ''h'' \<and> file_w (zs ! j) = ''/''
                                \<and> port (zs ! j) = 80))
         \<longrightarrow> (\<forall>qs now'. fst (cache_get (cache_gets two_c qs) (Some ''h'') (Some ''/'') 80 now')
                 = (Some (take (nat 3) ''new''), 3))"
    by blast
  from sub have "zs = []" by (simp add: cache_new_def vector_new_def)
  with fresh [rule_format, of "[]" 7] have new:
    "fst (cache_get two_c (Some ''h'') (Some ''/'') 80 7) = (Some ''new'', 3)"
    by simp
  from h app ys old h' new show ?thesis by simp
qed

section \<open>Core A: the allocator (mm.c)\<close>

type_synonym u32 = "32 word"
type_synonym size_t = "64 word"

definition SMALLBINS :: u32 where "SMALLBINS = 8"
definition MEDBINS :: u32 where "MEDBINS = 2"
definition BIGBINS :: u32 where "BIGBINS = 8"
definition CHUNKSIZE :: u32 where "CHUNKSIZE = 400"
definition MINALLOC :: u32 where "MINALLOC = 8"
definition HSIZE :: u32 where "HSIZE = 8"
definition ALIGNMENT :: u32 where "ALIGNMENT = 8"
definition LISTZONE :: u32 where "LISTZONE = SMALLBINS + MEDBINS + BIGBINS"
definition FIRST :: u32 where "FIRST = LISTZONE * 4 + 4"

definition get_bin :: "u32 \<Rightarrow> u32" where
  "get_bin size' =
     (if size' < 16 + SMALLBINS * 8 then size' div 8 - 2
      else if size' < 16 + SMALLBINS * 8 + MEDBINS * 64 then
        (size' - (16 + SMALLBINS * 8)) div 64 + SMALLBINS
      else if size' < 16 + SMALLBINS * 8 + MEDBINS * 64 + BIGBINS * 3072 then
        (size' - (16 + SMALLBINS * 8 + MEDBINS * 64)) div 3072 + SMALLBINS + MEDBINS
      else SMALLBINS + MEDBINS + BIGBINS)"

text \<open>
  \<^bold>\<open>Claim C5.\<close> For every block size \<open>s \<ge> 16\<close> (in particular every multiple of 8),
  \<^verbatim>\<open>get_bin\<close> is \<open>s/8 - 2\<close> below 80, \<open>8 + (s - 80)/64\<close> from 80 and below 208,
  \<open>10 + (s - 208)/3072\<close> from 208 and below 24784, and the overflow index 18 from
  there on: the table of the bins with \<open>S = 8\<close>, \<open>M = 2\<close>, \<open>B = 8\<close>.
\<close>

theorem get_bin_piecewise:
  assumes "16 \<le> s"
  shows "unat (get_bin s) =
     (if unat s < 80 then unat s div 8 - 2
      else if unat s < 208 then 8 + (unat s - 80) div 64
      else if unat s < 24784 then 10 + (unat s - 208) div 3072
      else 18)"
proof -
  from assms have s16: "16 \<le> unat s" by (simp add: word_le_nat_alt)
  have lt: "unat s < 2 ^ 32" using unsigned_less [of s] by simp
  show ?thesis
    using s16 lt
    by (simp add: get_bin_def SMALLBINS_def MEDBINS_def BIGBINS_def word_less_nat_alt
        unat_div unat_sub word_le_nat_alt unat_word_ariths)
qed


theorem get_bin_piecewise_witness:
  "(16 :: u32) \<le> 16 \<and> unat (get_bin 16) = 0 \<and> (16 :: u32) \<le> 136 \<and> unat (get_bin 136) = 8
   \<and> (16 :: u32) \<le> 3280 \<and> unat (get_bin 3280) = 11 \<and> (16 :: u32) \<le> 24784 \<and> unat (get_bin 24784) = 18"
  using get_bin_piecewise [of 16] get_bin_piecewise [of 136] get_bin_piecewise [of 3280]
    get_bin_piecewise [of 24784]
  by simp

text \<open>
  The contracts of the source (\<^verbatim>\<open>REQUIRES\<close>, \<^verbatim>\<open>ENSURES\<close>, \<^verbatim>\<open>ASSERT\<close>) and the calls
  of \<^verbatim>\<open>checkheap\<close> are compiled out of a release build (\<^verbatim>\<open>NDEBUG\<close>); they are not
  part of the functions below.
\<close>

text \<open>
  The heap. Every pointer of the C code points into the heap and is the index of a
  32-bit word counted from \<^verbatim>\<open>heapStart\<close>: the pointer \<^verbatim>\<open>heapStart + i\<close> is the
  integer \<open>i\<close>, and \<open>mem h i\<close> is the word \<^verbatim>\<open>heapStart[i]\<close>. \<open>brk\<close> is the number of
  bytes between \<^verbatim>\<open>mem_heap_lo ()\<close> and the break.
\<close>

record heap =
  mem :: "int \<Rightarrow> u32"
  wildPtr :: int
  brk :: nat
  heap_limit :: nat
  sbrk_calls :: "(int \<times> bool) list"

text \<open>
  Modelled from the spec: \<^verbatim>\<open>mem_sbrk\<close> of memlib (the heap-extend primitive
  \<open>extend_heap(bytes) \<rightarrow> pointer|err\<close> of the host) is not part of the sources. It
  either fails and leaves the heap as it is, or moves the break up by the requested
  number of bytes and returns the old break; it fails for a negative request and when
  the heap would grow beyond \<open>heap_limit\<close>. Every call is recorded with its outcome in
  \<open>sbrk_calls\<close>.
\<close>

definition mem_sbrk :: "heap \<Rightarrow> int \<Rightarrow> nat option \<times> heap" where
  "mem_sbrk h incr =
     (if incr < 0 \<or> int (brk h) + incr > int (heap_limit h)
      then (None, h\<lparr>sbrk_calls := sbrk_calls h @ [(incr, False)]\<rparr>)
      else (Some (brk h),
            h\<lparr>brk := nat (int (brk h) + incr), sbrk_calls := sbrk_calls h @ [(incr, True)]\<rparr>))"

subsection \<open>Block functions\<close>

definition block_size :: "heap \<Rightarrow> int \<Rightarrow> u32" where
  "block_size h block = mem h block AND 0xFFFFFFF8"

definition block_free :: "heap \<Rightarrow> int \<Rightarrow> bool" where
  "block_free h block \<longleftrightarrow> mem h block AND 1 \<noteq> 0"

definition block_mark :: "heap \<Rightarrow> int \<Rightarrow> u32 \<Rightarrow> heap" where
  "block_mark h block fr = h\<lparr>mem := (mem h)(block := (mem h block AND 0xFFFFFFFE) + fr)\<rparr>"

definition block_pack :: "heap \<Rightarrow> int \<Rightarrow> u32 \<Rightarrow> u32 \<Rightarrow> heap" where
  "block_pack h block size' fr = h\<lparr>mem := (mem h)(block := size' + fr)\<rparr>"

definition block_mem :: "int \<Rightarrow> int" where
  "block_mem block = block + 1"

definition block_prev :: "heap \<Rightarrow> int \<Rightarrow> int" where
  "block_prev h block = block - uint (block_size h (block - 1) div 4)"

definition block_next :: "heap \<Rightarrow> int \<Rightarrow> int" where
  "block_next h block = block + uint (block_size h block div 4)"

definition block_left :: "heap \<Rightarrow> int \<Rightarrow> int" where
  "block_left h block = uint (mem h (block + 1))"

definition block_right :: "heap \<Rightarrow> int \<Rightarrow> int" where
  "block_right h block = uint (mem h (block + 2))"

definition edit_left :: "heap \<Rightarrow> int \<Rightarrow> int \<Rightarrow> heap" where
  "edit_left h block left = h\<lparr>mem := (mem h)(block + 1 := word_of_int left)\<rparr>"

definition edit_right :: "heap \<Rightarrow> int \<Rightarrow> int \<Rightarrow> heap" where
  "edit_right h block right = h\<lparr>mem := (mem h)(block + 2 := word_of_int right)\<rparr>"

subsection \<open>Utility functions\<close>

definition list_insert :: "heap \<Rightarrow> int \<Rightarrow> heap" where
  "list_insert h freePtr =
     (let bidx = get_bin (block_size h freePtr);
          listHead = uint bidx;
          listFirst = uint (mem h listHead)
      in if listFirst = listHead then
           (let h1 = h\<lparr>mem := (mem h)(listHead := word_of_int freePtr)\<rparr>;
                h2 = edit_left h1 freePtr listHead
            in edit_right h2 freePtr listHead)
         else
           (let h1 = h\<lparr>mem := (mem h)(listHead := word_of_int freePtr)\<rparr>;
                h2 = edit_left h1 freePtr listHead;
                h3 = edit_right h2 freePtr listFirst
            in edit_left h3 listFirst freePtr))"

definition list_delete :: "heap \<Rightarrow> int \<Rightarrow> heap" where
  "list_delete h freePtr =
     (let left = mem h (freePtr + 1);
          right = mem h (freePtr + 2);
          leftPtr = uint left;
          h1 = (if left \<le> LISTZONE then h\<lparr>mem := (mem h)(leftPtr := right)\<rparr>
                else h\<lparr>mem := (mem h)(leftPtr + 2 := right)\<rparr>)
      in if right > LISTZONE then
           (let rightPtr = uint right in h1\<lparr>mem := (mem h1)(rightPtr + 1 := left)\<rparr>)
         else h1)"

text \<open>\<^verbatim>\<open>place\<close> returns the payload pointer \<^verbatim>\<open>ptr+1\<close>, which is never null.\<close>

definition place :: "heap \<Rightarrow> int \<Rightarrow> u32 \<Rightarrow> int \<times> heap" where
  "place h ptr size' =
     (let h1 = list_delete h ptr;
          bsize = block_size h1 ptr
      in if bsize \<ge> size' + MINALLOC + HSIZE then
           (let h2 = block_pack h1 ptr size' 0;
                freePtr = ptr + uint (size' div 4);
                h3 = block_pack h2 (freePtr - 1) size' 0;
                bsize' = bsize - size';
                h4 = block_pack h3 freePtr bsize' 1;
                h5 = block_pack h4 (freePtr + uint (bsize' div 4 - 1)) bsize' 1
            in (ptr + 1, list_insert h5 freePtr))
         else (ptr + 1, block_mark h1 ptr 0))"

definition list_alloc_exact :: "heap \<Rightarrow> int \<Rightarrow> u32 \<Rightarrow> int option \<times> heap" where
  "list_alloc_exact h start size' =
     (let curPtr = uint (mem h start)
      in if curPtr \<noteq> start then (case place h curPtr size' of (p, h') \<Rightarrow> (Some p, h'))
         else (None, h))"

text \<open>The best fit search of \<^verbatim>\<open>list_alloc_best\<close>; \<open>bestPtr\<close> is \<open>None\<close> for \<^verbatim>\<open>NULL\<close>.\<close>

function best_fit_search ::
  "heap \<Rightarrow> int \<Rightarrow> u32 \<Rightarrow> int \<Rightarrow> u32 \<Rightarrow> int option \<Rightarrow> nat \<Rightarrow> int option" where
  "best_fit_search h start size' curPtr best bestPtr ctr =
     (if curPtr \<noteq> start \<and> ctr \<le> 5 then
        (if block_size h curPtr \<ge> size' \<and> block_size h curPtr \<le> best
         then best_fit_search h start size' (block_right h curPtr) (block_size h curPtr)
                (Some curPtr) (ctr + 1)
         else best_fit_search h start size' (block_right h curPtr) best bestPtr (ctr + 1))
      else bestPtr)"
  by pat_completeness auto
termination
  by (relation "measure (\<lambda>(h, start, size', curPtr, best, bestPtr, ctr). 6 - ctr)") auto

declare best_fit_search.simps [simp del]

definition list_alloc_best :: "heap \<Rightarrow> int \<Rightarrow> u32 \<Rightarrow> int option \<times> heap" where
  "list_alloc_best h start size' =
     (case best_fit_search h start size' (uint (mem h start)) 0xFFFFFFFF None 0 of
        Some bestPtr \<Rightarrow> (case place h bestPtr size' of (p, h') \<Rightarrow> (Some p, h'))
      | None \<Rightarrow> (None, h))"

text \<open>
  \<^verbatim>\<open>wild_expand\<close> passes its \<^verbatim>\<open>uint32_t\<close> to the \<^verbatim>\<open>int\<close> parameter of
  \<^verbatim>\<open>mem_sbrk\<close>, and reads the returned pointer as a \<^verbatim>\<open>long long\<close>: the error value
  \<^verbatim>\<open>(void *)-1\<close> is the only negative one.
\<close>

definition wild_expand :: "heap \<Rightarrow> u32 \<Rightarrow> u32 \<times> heap" where
  "wild_expand h size' =
     (let size'' = (if size' < CHUNKSIZE then CHUNKSIZE else size')
      in case mem_sbrk h (sint size'') of
           (None, h') \<Rightarrow> (0, h')
         | (Some _, h') \<Rightarrow> (size'', h'))"

text \<open>
  \<open>wild_carve\<close> is the second half of \<^verbatim>\<open>wild_alloc\<close>, from \<^verbatim>\<open>allocPtr = wildPtr+1\<close>
  on; \<open>wpsize\<close> is the local variable of that name.
\<close>

definition wild_carve :: "heap \<Rightarrow> u32 \<Rightarrow> u32 \<Rightarrow> int option \<times> heap" where
  "wild_carve h size' wpsize =
     (let allocPtr = wildPtr h + 1;
          h1 = h\<lparr>wildPtr := wildPtr h + uint (size' div 4)\<rparr>;
          wpsize' = wpsize - size';
          h2 = block_pack h1 (allocPtr - 1) size' 0;
          h3 = block_pack h2 (wildPtr h2 - 1) size' 0;
          h4 = block_pack h3 (wildPtr h3) wpsize' 1;
          h5 = block_pack h4 (wildPtr h4 + uint (wpsize' div 4 - 1)) wpsize' 1
      in (Some allocPtr, h5))"

definition wild_alloc :: "heap \<Rightarrow> u32 \<Rightarrow> int option \<times> heap" where
  "wild_alloc h size' =
     (let wpsize = block_size h (wildPtr h)
      in if wpsize < size' + MINALLOC + HSIZE then
           (case wild_expand h (size' - wpsize + MINALLOC + HSIZE) of
              (inc, h') \<Rightarrow> if inc = 0 then (None, h') else wild_carve h' size' (wpsize + inc))
         else wild_carve h size' wpsize)"

subsection \<open>malloc, free, calloc\<close>

function init_lists :: "heap \<Rightarrow> u32 \<Rightarrow> heap" where
  "init_lists h b =
     (if b \<le> LISTZONE then init_lists (h\<lparr>mem := (mem h)(uint b := b)\<rparr>) (b + 1) else h)"
  by pat_completeness auto
termination
proof (relation "measure (\<lambda>(h, b). 19 - unat b)")
  show "wf (measure (\<lambda>(h, b). 19 - unat b))" by simp
next
  fix h :: heap and b :: u32
  assume "b \<le> LISTZONE"
  then have "unat b \<le> 18"
    by (simp add: LISTZONE_def SMALLBINS_def MEDBINS_def BIGBINS_def word_le_nat_alt)
  then have "unat (b + 1) = unat b + 1"
    by (simp add: unat_word_ariths)
  with \<open>unat b \<le> 18\<close> show "((h\<lparr>mem := (mem h)(uint b := b)\<rparr>, b + 1), h, b)
      \<in> measure (\<lambda>(h, b). 19 - unat b)"
    by simp
qed

declare init_lists.simps [simp del]

text \<open>\<^verbatim>\<open>mm_init\<close> returns \<open>-1\<close> on error and \<open>0\<close> on success.\<close>

definition mm_init :: "heap \<Rightarrow> int \<times> heap" where
  "mm_init h =
     (case wild_expand h (4 + FIRST + HSIZE + MINALLOC) of
        (size', h1) \<Rightarrow>
          if size' = 0 then (-1, h1)
          else
            (let h2 = init_lists h1 0;
                 freeSize = size' - (4 + FIRST);
                 h3 = h2\<lparr>wildPtr := uint (FIRST div 4)\<rparr>;
                 h4 = block_pack h3 (wildPtr h3) freeSize 1;
                 h5 = block_pack h4 (wildPtr h4 + uint (freeSize div 4 - 1)) freeSize 1
             in (0, h5)))"

text \<open>The \<^verbatim>\<open>for\<close> loop of \<^verbatim>\<open>malloc\<close> over the bins, followed by \<^verbatim>\<open>wild_alloc\<close>.\<close>

function malloc_search :: "heap \<Rightarrow> u32 \<Rightarrow> u32 \<Rightarrow> int option \<times> heap" where
  "malloc_search h b newsize =
     (if b \<le> LISTZONE then
        (if mem h (uint b) \<noteq> b then
           (case (if b < SMALLBINS then list_alloc_exact h (uint b) newsize
                  else list_alloc_best h (uint b) newsize) of
              (Some p, h') \<Rightarrow> (Some p, h')
            | (None, h') \<Rightarrow> malloc_search h' (b + 1) newsize)
         else malloc_search h (b + 1) newsize)
      else wild_alloc h newsize)"
  by pat_completeness auto
termination
proof (relation "measure (\<lambda>(h, b, newsize). 19 - unat b)")
  show "wf (measure (\<lambda>(h, b, newsize). 19 - unat b))" by simp
next
  fix h h' :: heap and b newsize :: u32
  assume "b \<le> LISTZONE"
  then have "unat b \<le> 18"
    by (simp add: LISTZONE_def SMALLBINS_def MEDBINS_def BIGBINS_def word_le_nat_alt)
  then have "unat (b + 1) = unat b + 1"
    by (simp add: unat_word_ariths)
  with \<open>unat b \<le> 18\<close> show "((h', b + 1, newsize), h, b, newsize)
      \<in> measure (\<lambda>(h, b, newsize). 19 - unat b)"
    by simp
  from \<open>unat (b + 1) = unat b + 1\<close> \<open>unat b \<le> 18\<close> show "((h, b + 1, newsize), h, b, newsize)
      \<in> measure (\<lambda>(h, b, newsize). 19 - unat b)"
    by simp
qed

declare malloc_search.simps [simp del]

definition malloc :: "heap \<Rightarrow> size_t \<Rightarrow> int option \<times> heap" where
  "malloc h size' =
     (if size' = 0 then (None, h)
      else
        (let newsize = (if size' \<le> ucast MINALLOC then MINALLOC + HSIZE
                        else ucast (((size' + ucast HSIZE + ucast ALIGNMENT - 1)
                                       div ucast ALIGNMENT) * ucast ALIGNMENT))
         in malloc_search h (get_bin newsize) newsize))"


definition free :: "heap \<Rightarrow> int option \<Rightarrow> heap" where
  "free h ptr =
     (case ptr of
        None \<Rightarrow> h
      | Some ptr' \<Rightarrow>
          (let bPtr = ptr' - 1;
               h1 = block_mark h bPtr 1;
               (bPtr, h2) =
                 (if bPtr \<noteq> uint (FIRST div 4) \<and> block_free h1 (block_prev h1 bPtr) then
                    (let prev = block_prev h1 bPtr;
                         ha = list_delete h1 prev;
                         newSize = block_size ha prev + block_size ha bPtr;
                         hb = block_pack ha prev newSize 1;
                         hc = block_pack hb (prev + uint (newSize div 4 - 1)) newSize 1
                     in (prev, hc))
                  else (bPtr, h1))
           in if block_next h2 bPtr = wildPtr h2 then
                (let wildSize = block_size h2 (wildPtr h2) + block_size h2 bPtr;
                     h3 = h2\<lparr>wildPtr := bPtr\<rparr>;
                     h4 = block_pack h3 (wildPtr h3) wildSize 1
                 in block_pack h4 (wildPtr h4 + uint (wildSize div 4 - 1)) wildSize 1)
              else
                (let h3 =
                   (if block_free h2 (block_next h2 bPtr) then
                      (let next = block_next h2 bPtr;
                           ha = list_delete h2 next;
                           newSize = block_size ha bPtr + block_size ha next;
                           hb = block_pack ha bPtr newSize 1
                       in block_pack hb (bPtr + uint (newSize div 4 - 1)) newSize 1)
                    else h2)
                 in list_insert h3 bPtr)))"

text \<open>
  \<^verbatim>\<open>memset (p, 0, n)\<close> on the word-indexed memory of a little-endian machine: the
  \<open>n div 4\<close> words from \<open>p\<close> become zero and the low \<open>n mod 4\<close> bytes of the next
  one are cleared. Writing at least one byte through a null pointer faults.
\<close>

definition memset_zero :: "heap \<Rightarrow> int option \<Rightarrow> size_t \<Rightarrow> error + heap" where
  "memset_zero h p n =
     (case p of
        None \<Rightarrow> if n = 0 then Inr h else Inl NullDeref
      | Some p' \<Rightarrow>
          Inr (h\<lparr>mem := (\<lambda>a. if p' \<le> a \<and> a < p' + int (unat n div 4) then 0
                             else if a = p' + int (unat n div 4) \<and> unat n mod 4 \<noteq> 0
                               then mem h a AND NOT (mask (8 * (unat n mod 4)))
                             else mem h a)\<rparr>))"

definition calloc :: "heap \<Rightarrow> size_t \<Rightarrow> size_t \<Rightarrow> error + (int option \<times> heap)" where
  "calloc h nmemb size' =
     (let bytes = nmemb * size'
      in case malloc h bytes of
           (newptr, h1) \<Rightarrow>
             (case memset_zero h1 newptr bytes of
                Inl e \<Rightarrow> Inl e
              | Inr h2 \<Rightarrow> Inr (newptr, h2)))"

subsection \<open>Which calls of the heap-extend primitive an allocation makes\<close>

lemma block_pack_sbrk [simp]: "sbrk_calls (block_pack h b s f) = sbrk_calls h"
  by (simp add: block_pack_def)

lemma block_mark_sbrk [simp]: "sbrk_calls (block_mark h b f) = sbrk_calls h"
  by (simp add: block_mark_def)

lemma edit_left_sbrk [simp]: "sbrk_calls (edit_left h b l) = sbrk_calls h"
  by (simp add: edit_left_def)

lemma edit_right_sbrk [simp]: "sbrk_calls (edit_right h b l) = sbrk_calls h"
  by (simp add: edit_right_def)

lemma list_insert_sbrk [simp]: "sbrk_calls (list_insert h p) = sbrk_calls h"
  by (simp add: list_insert_def Let_def)

lemma list_delete_sbrk [simp]: "sbrk_calls (list_delete h p) = sbrk_calls h"
  by (simp add: list_delete_def Let_def)

lemma place_sbrk: "place h p s = (r, h') \<Longrightarrow> sbrk_calls h' = sbrk_calls h"
  by (auto simp: place_def Let_def split: if_splits)

lemma wild_carve_result:
  "\<exists>p. fst (wild_carve h s w) = Some p \<and> sbrk_calls (snd (wild_carve h s w)) = sbrk_calls h"
  by (simp add: wild_carve_def Let_def)

lemma CHUNKSIZE_nonzero: "(if s < CHUNKSIZE then CHUNKSIZE else s) \<noteq> 0"
  by (auto simp: CHUNKSIZE_def word_less_nat_alt)

lemma wild_expand_result:
  "(fst (wild_expand h s) = 0 \<and>
      (\<exists>incr. sbrk_calls (snd (wild_expand h s)) = sbrk_calls h @ [(incr, False)]))
   \<or> (fst (wild_expand h s) \<noteq> 0 \<and>
      (\<exists>incr. sbrk_calls (snd (wild_expand h s)) = sbrk_calls h @ [(incr, True)]))"
  using CHUNKSIZE_nonzero [of s]
  by (auto simp: wild_expand_def mem_sbrk_def Let_def)

lemma wild_alloc_result:
  "(fst (wild_alloc h s) = None \<and>
      (\<exists>incr. sbrk_calls (snd (wild_alloc h s)) = sbrk_calls h @ [(incr, False)]))
   \<or> (fst (wild_alloc h s) \<noteq> None \<and>
      (sbrk_calls (snd (wild_alloc h s)) = sbrk_calls h
       \<or> (\<exists>incr. sbrk_calls (snd (wild_alloc h s)) = sbrk_calls h @ [(incr, True)])))"
proof (cases "block_size h (wildPtr h) < s + MINALLOC + HSIZE")
  case True
  obtain inc h' where e: "wild_expand h (s - block_size h (wildPtr h) + MINALLOC + HSIZE) = (inc, h')"
    by (cases "wild_expand h (s - block_size h (wildPtr h) + MINALLOC + HSIZE)")
  from wild_expand_result [of h "s - block_size h (wildPtr h) + MINALLOC + HSIZE"] e
  have r: "(inc = 0 \<and> (\<exists>incr. sbrk_calls h' = sbrk_calls h @ [(incr, False)]))
         \<or> (inc \<noteq> 0 \<and> (\<exists>incr. sbrk_calls h' = sbrk_calls h @ [(incr, True)]))"
    by simp
  from wild_carve_result [of h' s "block_size h (wildPtr h) + inc"] obtain p where
    c: "fst (wild_carve h' s (block_size h (wildPtr h) + inc)) = Some p"
       "sbrk_calls (snd (wild_carve h' s (block_size h (wildPtr h) + inc))) = sbrk_calls h'"
    by blast
  from True e r c show ?thesis
    by (auto simp: wild_alloc_def Let_def)
next
  case False
  with wild_carve_result [of h s "block_size h (wildPtr h)"] show ?thesis
    by (auto simp: wild_alloc_def Let_def)
qed

lemma list_alloc_exact_result:
  "(fst (list_alloc_exact h st s) = None \<and> snd (list_alloc_exact h st s) = h)
   \<or> (fst (list_alloc_exact h st s) \<noteq> None
       \<and> sbrk_calls (snd (list_alloc_exact h st s)) = sbrk_calls h)"
  by (auto simp: list_alloc_exact_def Let_def split: prod.splits dest: place_sbrk)

lemma list_alloc_best_result:
  "(fst (list_alloc_best h st s) = None \<and> snd (list_alloc_best h st s) = h)
   \<or> (fst (list_alloc_best h st s) \<noteq> None
       \<and> sbrk_calls (snd (list_alloc_best h st s)) = sbrk_calls h)"
proof (cases "best_fit_search h st s (uint (mem h st)) 0xFFFFFFFF None 0")
  case None
  then show ?thesis by (simp add: list_alloc_best_def)
next
  case (Some p)
  then show ?thesis
    by (auto simp: list_alloc_best_def split: prod.splits dest: place_sbrk)
qed

definition sbrk_outcome :: "heap \<Rightarrow> int option \<times> heap \<Rightarrow> bool" where
  "sbrk_outcome h r \<longleftrightarrow>
     (fst r = None \<and> (\<exists>incr. sbrk_calls (snd r) = sbrk_calls h @ [(incr, False)]))
     \<or> (fst r \<noteq> None \<and>
        (sbrk_calls (snd r) = sbrk_calls h
         \<or> (\<exists>incr. sbrk_calls (snd r) = sbrk_calls h @ [(incr, True)])))"

lemma malloc_search_result: "sbrk_outcome h (malloc_search h b n)"
proof (induction h b n rule: malloc_search.induct)
  case (1 h b n)
  show ?case
  proof (cases "b \<le> LISTZONE")
    case False
    with wild_alloc_result [of h n] show ?thesis
      by (simp add: malloc_search.simps [of h b n] sbrk_outcome_def)
  next
    case le: True
    show ?thesis
    proof (cases "mem h (uint b) \<noteq> b")
      case False
      with le "1.IH"(2) show ?thesis
        by (simp add: malloc_search.simps [of h b n])
    next
      case ne: True
      let ?r = "if b < SMALLBINS then list_alloc_exact h (uint b) n
                else list_alloc_best h (uint b) n"
      have r: "(fst ?r = None \<and> snd ?r = h) \<or> (fst ?r \<noteq> None \<and> sbrk_calls (snd ?r) = sbrk_calls h)"
        using list_alloc_exact_result [of h "uint b" n] list_alloc_best_result [of h "uint b" n]
        by (cases "b < SMALLBINS") simp_all
      show ?thesis
      proof (cases "fst ?r")
        case None
        with r have eq: "?r = (None, h)" by (cases ?r) auto
        from "1.IH"(1) [OF le ne eq [symmetric] refl] le ne eq show ?thesis
          by (simp add: malloc_search.simps [of h b n])
      next
        case (Some p)
        then obtain h' where eq: "?r = (Some p, h')" by (cases ?r) auto
        with r have "sbrk_calls h' = sbrk_calls h" by simp
        with le ne eq show ?thesis
          by (simp add: malloc_search.simps [of h b n] sbrk_outcome_def)
      qed
    qed
  qed
qed

text \<open>
  \<^bold>\<open>Claim C1.\<close> \<^verbatim>\<open>malloc\<close> returns \<^verbatim>\<open>NULL\<close> for size 0, without touching the heap;
  for every other size it returns \<^verbatim>\<open>NULL\<close> exactly when it has called the heap-extend
  primitive and the call has failed. It calls the primitive at most once, and a call
  that succeeds is followed by a non-null result; no state of the free lists or of
  the wilderness gives \<^verbatim>\<open>NULL\<close> without a failed call.
\<close>

theorem malloc_null_iff_sbrk_fails:
  "malloc h 0 = (None, h)
   \<and> (n \<noteq> 0 \<longrightarrow>
        (fst (malloc h n) = None \<longleftrightarrow>
           (\<exists>incr. sbrk_calls (snd (malloc h n)) = sbrk_calls h @ [(incr, False)]))
      \<and> (fst (malloc h n) \<noteq> None \<longrightarrow>
           sbrk_calls (snd (malloc h n)) = sbrk_calls h
           \<or> (\<exists>incr. sbrk_calls (snd (malloc h n)) = sbrk_calls h @ [(incr, True)])))"
proof (intro conjI impI)
  show "malloc h 0 = (None, h)" by (simp add: malloc_def)
next
  assume n: "n \<noteq> 0"
  define newsize :: u32 where "newsize = (if n \<le> ucast MINALLOC then MINALLOC + HSIZE
       else ucast (((n + ucast HSIZE + ucast ALIGNMENT - 1) div ucast ALIGNMENT) * ucast ALIGNMENT))"
  from n have m: "malloc h n = malloc_search h (get_bin newsize) newsize"
    by (simp add: malloc_def newsize_def Let_def)
  from malloc_search_result [of h "get_bin newsize" newsize]
  show "fst (malloc h n) = None \<longleftrightarrow>
           (\<exists>incr. sbrk_calls (snd (malloc h n)) = sbrk_calls h @ [(incr, False)])"
    unfolding m sbrk_outcome_def by auto
next
  assume n: "n \<noteq> 0" and nn: "fst (malloc h n) \<noteq> None"
  define newsize :: u32 where "newsize = (if n \<le> ucast MINALLOC then MINALLOC + HSIZE
       else ucast (((n + ucast HSIZE + ucast ALIGNMENT - 1) div ucast ALIGNMENT) * ucast ALIGNMENT))"
  from n have m: "malloc h n = malloc_search h (get_bin newsize) newsize"
    by (simp add: malloc_def newsize_def Let_def)
  from malloc_search_result [of h "get_bin newsize" newsize] nn
  show "sbrk_calls (snd (malloc h n)) = sbrk_calls h
        \<or> (\<exists>incr. sbrk_calls (snd (malloc h n)) = sbrk_calls h @ [(incr, True)])"
    unfolding m sbrk_outcome_def by auto
qed


subsection \<open>The bounded best fit search\<close>

text \<open>
  The elements of a bin's list from \<open>cur\<close> on, at most \<open>n\<close> of them: the list ends
  where the \<^verbatim>\<open>right\<close> link is back at the list head \<open>start\<close>.
\<close>

fun bin_walk :: "heap \<Rightarrow> int \<Rightarrow> int \<Rightarrow> nat \<Rightarrow> int list" where
  "bin_walk h start cur 0 = []"
| "bin_walk h start cur (Suc n) =
     (if cur = start then [] else cur # bin_walk h start (block_right h cur) n)"

definition examined :: "heap \<Rightarrow> int \<Rightarrow> int list" where
  "examined h start = bin_walk h start (uint (mem h start)) 6"

lemma bin_walk_length: "length (bin_walk h start cur n) \<le> n"
  by (induction n arbitrary: cur) simp_all

lemma u32_max: "(x :: u32) \<le> 0xFFFFFFFF"
  using unsigned_less [of x, where 'a = nat] by (simp add: word_le_nat_alt)

lemma best_fit_search_spec:
  assumes "ctr \<le> 6"
    and "\<forall>p. bestPtr = Some p \<longrightarrow> best = block_size h p \<and> size' \<le> block_size h p"
    and "bestPtr = None \<longrightarrow> (\<forall>x. x \<le> best)"
  shows "case best_fit_search h start size' cur best bestPtr ctr of
           None \<Rightarrow> bestPtr = None
             \<and> (\<forall>q\<in>set (bin_walk h start cur (6 - ctr)). \<not> size' \<le> block_size h q)
         | Some p \<Rightarrow> (bestPtr = Some p \<or> p \<in> set (bin_walk h start cur (6 - ctr)))
             \<and> size' \<le> block_size h p \<and> block_size h p \<le> best
             \<and> (\<forall>q\<in>set (bin_walk h start cur (6 - ctr)).
                   size' \<le> block_size h q \<longrightarrow> block_size h p \<le> block_size h q)"
  using assms
proof (induction h start size' cur best bestPtr ctr rule: best_fit_search.induct)
  case (1 h start size' curPtr best bestPtr ctr)
  show ?case
  proof (cases "curPtr \<noteq> start \<and> ctr \<le> 5")
    case False
    then have w: "bin_walk h start curPtr (6 - ctr) = []"
      using "1.prems"(1) by (cases "6 - ctr") auto
    have "best_fit_search h start size' curPtr best bestPtr ctr = bestPtr"
      by (subst best_fit_search.simps) (rule if_not_P [OF False])
    with w "1.prems"(2) show ?thesis
      by (cases bestPtr) simp_all
  next
    case True
    then have S: "6 - ctr = Suc (6 - (ctr + 1))" and c6: "ctr + 1 \<le> 6" by arith+
    from True have w: "bin_walk h start curPtr (6 - ctr)
        = curPtr # bin_walk h start (block_right h curPtr) (6 - (ctr + 1))"
      by (subst S) simp
    show ?thesis
    proof (cases "block_size h curPtr \<ge> size' \<and> block_size h curPtr \<le> best")
      case fit: True
      have step: "best_fit_search h start size' curPtr best bestPtr ctr =
          best_fit_search h start size' (block_right h curPtr) (block_size h curPtr)
            (Some curPtr) (ctr + 1)"
        by (subst best_fit_search.simps) (simp only: if_P [OF True] if_P [OF fit])
      have inv: "\<forall>p. Some curPtr = Some p \<longrightarrow>
          block_size h curPtr = block_size h p \<and> size' \<le> block_size h p"
        using fit by simp
      from "1.IH"(1) [OF True fit c6 inv] fit show ?thesis
        unfolding step w
        by (auto split: option.splits)
    next
      case nofit: False
      have step: "best_fit_search h start size' curPtr best bestPtr ctr =
          best_fit_search h start size' (block_right h curPtr) best bestPtr (ctr + 1)"
        by (subst best_fit_search.simps) (simp only: if_P [OF True] if_not_P [OF nofit])
      from "1.IH"(2) [OF True nofit c6 "1.prems"(2,3)] nofit "1.prems"(3) show ?thesis
        unfolding step w
        by (auto split: option.splits)
    qed
  qed
qed


lemma list_alloc_best_spec:
  "(if \<exists>q\<in>set (examined h start). size' \<le> block_size h q
    then \<exists>p\<in>set (examined h start). size' \<le> block_size h p
           \<and> (\<forall>q\<in>set (examined h start). size' \<le> block_size h q \<longrightarrow>
                  block_size h p \<le> block_size h q)
           \<and> list_alloc_best h start size' = (case place h p size' of (r, h') \<Rightarrow> (Some r, h'))
    else list_alloc_best h start size' = (None, h))"
proof -
  let ?r = "best_fit_search h start size' (uint (mem h start)) 0xFFFFFFFF None 0"
  have spec: "case ?r of
           None \<Rightarrow> (None :: int option) = None
             \<and> (\<forall>q\<in>set (bin_walk h start (uint (mem h start)) (6 - 0)). \<not> size' \<le> block_size h q)
         | Some p \<Rightarrow> ((None :: int option) = Some p
                      \<or> p \<in> set (bin_walk h start (uint (mem h start)) (6 - 0)))
             \<and> size' \<le> block_size h p \<and> block_size h p \<le> 0xFFFFFFFF
             \<and> (\<forall>q\<in>set (bin_walk h start (uint (mem h start)) (6 - 0)).
                   size' \<le> block_size h q \<longrightarrow> block_size h p \<le> block_size h q)"
    by (rule best_fit_search_spec) (simp_all add: u32_max)
  show ?thesis
  proof (cases ?r)
    case None
    with spec show ?thesis
      by (simp add: examined_def list_alloc_best_def)
  next
    case (Some p)
    with spec have "p \<in> set (examined h start)" "size' \<le> block_size h p"
      "\<forall>q\<in>set (examined h start). size' \<le> block_size h q \<longrightarrow> block_size h p \<le> block_size h q"
      by (simp_all add: examined_def)
    moreover from Some have
      "list_alloc_best h start size' = (case place h p size' of (r, h') \<Rightarrow> (Some r, h'))"
      by (simp add: list_alloc_best_def)
    ultimately show ?thesis by auto
  qed
qed

lemma LISTZONE_succ: "\<not> LISTZONE + 1 \<le> LISTZONE"
  by (simp add: LISTZONE_def SMALLBINS_def MEDBINS_def BIGBINS_def)

text \<open>
  \<^bold>\<open>Claim C6.\<close> In a bin \<open>b\<close> that is not an exact bin, \<^verbatim>\<open>malloc\<close> looks at the first
  six elements of the list at most (\<open>examined\<close>). If one of them has room for the
  padded request, the block placed is one of them, of the smallest size among those
  of them with room. If none of them has room, in particular if the list is empty,
  the search goes on with bin \<open>b + 1\<close> on the same heap, whatever the rest of the list
  holds; after bin \<open>LISTZONE\<close> comes the wilderness.
\<close>

theorem malloc_bounded_best_fit:
  assumes "SMALLBINS \<le> b" and "b \<le> LISTZONE"
  shows "length (examined h (uint b)) \<le> 6
    \<and> ((\<forall>q\<in>set (examined h (uint b)). \<not> newsize \<le> block_size h q) \<longrightarrow>
         malloc_search h b newsize = malloc_search h (b + 1) newsize)
    \<and> ((\<exists>q\<in>set (examined h (uint b)). newsize \<le> block_size h q) \<longrightarrow>
         (\<exists>p\<in>set (examined h (uint b)). newsize \<le> block_size h p
            \<and> (\<forall>q\<in>set (examined h (uint b)). newsize \<le> block_size h q \<longrightarrow>
                  block_size h p \<le> block_size h q)
            \<and> malloc_search h b newsize =
                (case place h p newsize of (r, h') \<Rightarrow> (Some r, h'))))
    \<and> malloc_search h (LISTZONE + 1) newsize = wild_alloc h newsize"
proof (intro conjI impI)
  show "length (examined h (uint b)) \<le> 6"
    by (simp add: examined_def bin_walk_length)
next
  show "malloc_search h (LISTZONE + 1) newsize = wild_alloc h newsize"
    using LISTZONE_succ
    by (subst malloc_search.simps) simp
next
  assume none: "\<forall>q\<in>set (examined h (uint b)). \<not> newsize \<le> block_size h q"
  show "malloc_search h b newsize = malloc_search h (b + 1) newsize"
  proof (cases "mem h (uint b) = b")
    case True
    with assms(2) show ?thesis
      by (subst malloc_search.simps) simp
  next
    case False
    from none list_alloc_best_spec [of h "uint b" newsize]
    have "list_alloc_best h (uint b) newsize = (None, h)" by auto
    with False assms show ?thesis
      by (subst malloc_search.simps) (simp add: not_less [symmetric])
  qed
next
  assume some: "\<exists>q\<in>set (examined h (uint b)). newsize \<le> block_size h q"
  then have "examined h (uint b) \<noteq> []" by auto
  then have ne: "mem h (uint b) \<noteq> b"
    by (auto simp: examined_def numeral_eq_Suc)
  from some list_alloc_best_spec [of h "uint b" newsize] obtain p where
    p: "p \<in> set (examined h (uint b))" "newsize \<le> block_size h p"
       "\<forall>q\<in>set (examined h (uint b)). newsize \<le> block_size h q \<longrightarrow>
           block_size h p \<le> block_size h q"
       "list_alloc_best h (uint b) newsize = (case place h p newsize of (r, h') \<Rightarrow> (Some r, h'))"
    by (auto split: if_splits)
  have "malloc_search h b newsize = (case place h p newsize of (r, h') \<Rightarrow> (Some r, h'))"
    using assms ne p(4)
    by (subst malloc_search.simps) (auto simp: not_less [symmetric] split: prod.splits)
  with p show "\<exists>p\<in>set (examined h (uint b)). newsize \<le> block_size h p
            \<and> (\<forall>q\<in>set (examined h (uint b)). newsize \<le> block_size h q \<longrightarrow>
                  block_size h p \<le> block_size h q)
            \<and> malloc_search h b newsize =
                (case place h p newsize of (r, h') \<Rightarrow> (Some r, h'))"
    by blast
qed

subsection \<open>calloc\<close>

lemma calloc_fails:
  assumes "fst (malloc h (nmemb * size')) = None" and "nmemb * size' \<noteq> 0"
  shows "calloc h nmemb size' = Inl NullDeref"
  using assms by (cases "malloc h (nmemb * size')") (simp add: calloc_def memset_zero_def Let_def)

lemma calloc_zeroes:
  assumes "malloc h (nmemb * size') = (Some p, h1)"
  shows "\<exists>h2. calloc h nmemb size' = Inr (Some p, h2)
           \<and> (\<forall>a. p \<le> a \<and> a < p + int (unat (nmemb * size') div 4) \<longrightarrow> mem h2 a = 0)"
  using assms by (simp add: calloc_def memset_zero_def Let_def)

subsection \<open>Concrete heaps\<close>

text \<open>
  A heap before \<^verbatim>\<open>mm_init\<close>: no byte of it is mapped yet, and \<open>lim\<close> is the number of
  bytes the host will hand out.
\<close>

definition heap0 :: "nat \<Rightarrow> heap" where
  "heap0 lim = \<lparr>mem = (\<lambda>_. 0), wildPtr = 0, brk = 0, heap_limit = lim, sbrk_calls = []\<rparr>"

text \<open>A run of \<^verbatim>\<open>malloc\<close> calls, and a run of \<^verbatim>\<open>free\<close> calls.\<close>

fun mallocs :: "heap \<Rightarrow> size_t list \<Rightarrow> int option list \<times> heap" where
  "mallocs h [] = ([], h)"
| "mallocs h (n # ns) =
     (case malloc h n of (p, h') \<Rightarrow> (case mallocs h' ns of (ps, h'') \<Rightarrow> (p # ps, h'')))"

fun frees :: "heap \<Rightarrow> int option list \<Rightarrow> heap" where
  "frees h [] = h"
| "frees h (p # ps) = frees (free h p) ps"

lemmas alloc_consts = SMALLBINS_def MEDBINS_def BIGBINS_def CHUNKSIZE_def MINALLOC_def HSIZE_def
  ALIGNMENT_def LISTZONE_def FIRST_def

lemmas alloc_eval = alloc_consts get_bin_def mem_sbrk_def block_size_def block_free_def
  block_mark_def block_pack_def block_mem_def block_prev_def block_next_def block_left_def
  block_right_def edit_left_def edit_right_def list_insert_def list_delete_def place_def
  list_alloc_exact_def best_fit_search.simps list_alloc_best_def wild_expand_def wild_carve_def
  wild_alloc_def init_lists.simps mm_init_def malloc_search.simps malloc_def free_def
  memset_zero_def calloc_def Let_def heap0_def mallocs.simps frees.simps

lemma fun_upd_apply_cong: "x = y \<Longrightarrow> (f(a := b)) x = (f(a := b)) y"
  by simp

lemma bin_walk_numeral:
  "bin_walk h start cur (numeral k) =
     (if cur = start then [] else cur # bin_walk h start (block_right h cur) (pred_numeral k))"
  by (simp add: numeral_eq_Suc)

text \<open>
  The heap of 400 bytes that \<^verbatim>\<open>mm_init\<close> sets up when the host has no more than
  these 400 bytes to give.
\<close>

definition small_heap :: heap where
  "small_heap = snd (mm_init (heap0 400))"

lemma small_heap_init: "mm_init (heap0 400) = (0, small_heap)"
  by (simp add: small_heap_def alloc_eval)

lemma small_heap_malloc_1000:
  "fst (malloc small_heap 1000) = None"
  "sbrk_calls (snd (malloc small_heap 1000)) = sbrk_calls small_heap @ [(704, False)]"
  by (simp_all add: small_heap_def alloc_eval)

lemma small_heap_malloc_24:
  "fst (malloc small_heap 24) = Some 20"
  "sbrk_calls (snd (malloc small_heap 24)) = sbrk_calls small_heap"
  by (simp_all add: small_heap_def alloc_eval)

theorem malloc_null_iff_sbrk_fails_witness:
  "(1000 :: size_t) \<noteq> 0 \<and> fst (malloc small_heap 1000) = None
   \<and> (\<exists>incr. sbrk_calls (snd (malloc small_heap 1000)) = sbrk_calls small_heap @ [(incr, False)])
   \<and> (24 :: size_t) \<noteq> 0 \<and> fst (malloc small_heap 24) = Some 20
   \<and> \<not> (\<exists>incr. sbrk_calls (snd (malloc small_heap 24)) = sbrk_calls small_heap @ [(incr, False)])"
  using malloc_null_iff_sbrk_fails [of small_heap 1000] malloc_null_iff_sbrk_fails [of small_heap 24]
    small_heap_malloc_1000(1) small_heap_malloc_24(1)
  by simp

text \<open>
  \<^bold>\<open>Claim C8.\<close> \<^verbatim>\<open>calloc\<close> calls \<^verbatim>\<open>memset\<close> on the result of \<^verbatim>\<open>malloc\<close> without
  looking at it. When \<^verbatim>\<open>malloc\<close> fails for a size that is not zero, the write goes
  through the null pointer: on the 400-byte heap, \<^verbatim>\<open>calloc (1, 1000)\<close> faults, where
  the claim has it return nil.
\<close>

theorem calloc_null_deref:
  "fst (malloc small_heap (1 * 1000)) = None \<and> calloc small_heap 1 1000 = Inl NullDeref"
proof -
  have "fst (malloc small_heap (1 * 1000)) = None"
    using small_heap_malloc_1000(1) by simp
  moreover from this have "calloc small_heap 1 1000 = Inl NullDeref"
    by (rule calloc_fails) simp
  ultimately show ?thesis ..
qed

text \<open>
  A heap with seven free blocks in bin 8: after \<^verbatim>\<open>mm_init\<close>, fourteen calls of
  \<^verbatim>\<open>malloc\<close> lay out a block of 136 bytes and six blocks of 80 bytes, each followed
  by an allocated block of 16 bytes; then the block of 136 bytes and the six blocks
  of 80 bytes are freed, in this order. \<open>bf_heap\<close> is the heap that results; its
  memory is written as the sequence of the writes made, a later write to a word
  overriding the earlier ones.
\<close>

definition bf_sizes :: "size_t list" where
  "bf_sizes = [128, 8, 72, 8, 72, 8, 72, 8, 72, 8, 72, 8, 72, 8]"

definition bf_heap :: heap where
  "bf_heap = \<lparr>mem =
          (\<lambda>_. 0)
          (0 := 0, 1 := 1, 2 := 2, 3 := 3, 4 := 4, 5 := 5, 6 := 6, 7 := 7,
             8 := 8, 9 := 9, 10 := 10, 11 := 11, 12 := 12, 13 := 13,
             14 := 14, 15 := 15, 16 := 16, 17 := 17, 18 := 18, 19 := 321,
             98 := 321, 19 := 136, 52 := 136, 53 := 185, 98 := 185,
             53 := 16, 56 := 16, 57 := 169, 98 := 169, 57 := 80, 76 := 80,
             77 := 89, 98 := 89, 77 := 16, 80 := 16, 81 := 73, 98 := 73,
             81 := 80, 100 := 80, 101 := 393, 198 := 393, 101 := 16,
             104 := 16, 105 := 377, 198 := 377, 105 := 80, 124 := 80,
             125 := 297, 198 := 297, 125 := 16, 128 := 16, 129 := 281,
             198 := 281, 129 := 80, 148 := 80, 149 := 201, 198 := 201,
             149 := 16, 152 := 16, 153 := 185, 198 := 185, 153 := 80,
             172 := 80, 173 := 105, 198 := 105, 173 := 16, 176 := 16,
             177 := 89, 198 := 89, 177 := 80, 196 := 80, 197 := 409,
             298 := 409, 197 := 16, 200 := 16, 201 := 393, 298 := 393,
             19 := 137, 8 := 19, 20 := 8, 21 := 8, 57 := 81, 8 := 57,
             58 := 8, 59 := 19, 20 := 57, 81 := 81, 8 := 81, 82 := 8,
             83 := 57, 58 := 81, 105 := 81, 8 := 105, 106 := 8, 107 := 81,
             82 := 105, 129 := 81, 8 := 129, 130 := 8, 131 := 105,
             106 := 129, 153 := 81, 8 := 153, 154 := 8, 155 := 129,
             130 := 153, 177 := 81, 8 := 177, 178 := 8, 179 := 153,
             154 := 177),
          wildPtr = 201, brk = 1200, heap_limit = 100000,
          sbrk_calls = [(400, True), (400, True), (400, True)]\<rparr>"

lemma bf_pointers:
  "fst (mallocs (snd (mm_init (heap0 100000))) bf_sizes) =
     [Some 20, Some 54, Some 58, Some 78, Some 82, Some 102, Some 106, Some 126, Some 130,
      Some 150, Some 154, Some 174, Some 178, Some 198]"
  supply refl [simproc del: fun_upd2]
  by (simp add: alloc_eval bf_sizes_def
      cong: fun_upd_apply_cong prod.case_cong_weak option.case_cong_weak let_weak_cong)

lemma bf_heap_reached:
  "frees (snd (mallocs (snd (mm_init (heap0 100000))) bf_sizes))
     [Some 20, Some 58, Some 82, Some 106, Some 130, Some 154, Some 178] = bf_heap"
  supply refl [simproc del: fun_upd2]
  by (simp add: alloc_eval bf_sizes_def bf_heap_def
      cong: fun_upd_apply_cong prod.case_cong_weak option.case_cong_weak let_weak_cong)

lemma bf_heap_bin8:
  "bin_walk bf_heap 8 (uint (mem bf_heap 8)) 8 = [177, 153, 129, 105, 81, 57, 19]"
  supply refl [simproc del: fun_upd2]
  by (simp add: bf_heap_def block_right_def bin_walk_numeral cong: fun_upd_apply_cong)

lemma bf_heap_examined: "examined bf_heap 8 = [177, 153, 129, 105, 81, 57]"
  supply refl [simproc del: fun_upd2]
  by (simp add: examined_def bf_heap_def block_right_def bin_walk_numeral
      cong: fun_upd_apply_cong)

lemma bf_heap_sizes:
  "map (block_size bf_heap) [177, 153, 129, 105, 81, 57, 19] = [80, 80, 80, 80, 80, 80, 136]"
  supply refl [simproc del: fun_upd2]
  by (simp add: bf_heap_def block_size_def cong: fun_upd_apply_cong)

lemma bf_heap_malloc: "fst (malloc bf_heap 128) = Some 202" "wildPtr bf_heap = 201"
  supply refl [simproc del: fun_upd2]
  by (simp_all add: alloc_eval bf_heap_def
      cong: fun_upd_apply_cong prod.case_cong_weak option.case_cong_weak let_weak_cong)

text \<open>
  On \<open>bf_heap\<close> a request of 128 bytes (136 with the header) looks at the six blocks
  of 80 bytes at the front of bin 8, finds none large enough and goes on to bin 9 and
  in the end to the wilderness, although the seventh block of the list, at word 19,
  has exactly 136 bytes. A request of 72 bytes (80 with the header) is placed
  in one of the six.
\<close>

theorem malloc_bounded_best_fit_witness:
  "SMALLBINS \<le> 8 \<and> 8 \<le> LISTZONE
   \<and> examined bf_heap 8 = [177, 153, 129, 105, 81, 57]
   \<and> bin_walk bf_heap 8 (uint (mem bf_heap 8)) 8 = [177, 153, 129, 105, 81, 57, 19]
   \<and> map (block_size bf_heap) [177, 153, 129, 105, 81, 57, 19] = [80, 80, 80, 80, 80, 80, 136]
   \<and> malloc_search bf_heap 8 136 = malloc_search bf_heap 9 136
   \<and> fst (malloc bf_heap 128) = Some (wildPtr bf_heap + 1)
   \<and> (\<exists>p\<in>set (examined bf_heap 8). block_size bf_heap p = 80
        \<and> malloc_search bf_heap 8 80 = (case place bf_heap p 80 of (r, h') \<Rightarrow> (Some r, h')))"
proof -
  have b: "SMALLBINS \<le> 8" "8 \<le> LISTZONE"
    by (simp_all add: alloc_consts)
  have sz: "\<forall>q\<in>set (examined bf_heap 8). block_size bf_heap q = 80"
    using bf_heap_sizes by (simp add: bf_heap_examined)
  have none: "\<forall>q\<in>set (examined bf_heap (uint (8 :: u32))). \<not> 136 \<le> block_size bf_heap q"
    using sz by simp
  have some: "\<exists>q\<in>set (examined bf_heap (uint (8 :: u32))). 80 \<le> block_size bf_heap q"
    using sz by (simp add: bf_heap_examined)
  from malloc_bounded_best_fit [OF b, of bf_heap 136] none
  have next_bin: "malloc_search bf_heap 8 136 = malloc_search bf_heap 9 136"
    by simp
  from malloc_bounded_best_fit [OF b, of bf_heap 80] some
  obtain p where "p \<in> set (examined bf_heap 8)"
    "malloc_search bf_heap 8 80 = (case place bf_heap p 80 of (r, h') \<Rightarrow> (Some r, h'))"
    by auto
  with sz have placed: "\<exists>p\<in>set (examined bf_heap 8). block_size bf_heap p = 80
        \<and> malloc_search bf_heap 8 80 = (case place bf_heap p 80 of (r, h') \<Rightarrow> (Some r, h'))"
    by blast
  from b bf_heap_examined bf_heap_bin8 bf_heap_sizes next_bin bf_heap_malloc placed
  show ?thesis by simp
qed


section \<open>Core B: the header rewriter (proxy.c)\<close>


definition tolower :: "char \<Rightarrow> char" where
  "tolower c =
     (case map_of (zip ''ABCDEFGHIJKLMNOPQRSTUVWXYZ'' ''abcdefghijklmnopqrstuvwxyz'') c of
        Some l \<Rightarrow> l
      | None \<Rightarrow> c)"






















subsection \<open>What the web server is sent\<close>

text \<open>
  The vocabulary of the specification. The field name of a line is the text before
  its first colon, without trailing spaces; names are compared without regard to case.
  \<open>is_header N l\<close>: the line \<open>l\<close> has a field name equal to \<open>N\<close> up to case.
  \<open>rewritten l\<close>: the field name of \<open>l\<close> is one of the five names that the proxy
  rewrites.
\<close>

definition rstrip :: "string \<Rightarrow> string" where
  "rstrip s = rev (dropWhile (\<lambda>c. c = CHR '' '') (rev s))"

definition field_name :: "string \<Rightarrow> string option" where
  "field_name line =
     (if CHR '':'' \<in> set line then Some (rstrip (takeWhile (\<lambda>c. c \<noteq> CHR '':'') line))
      else None)"

definition same_name :: "string \<Rightarrow> string \<Rightarrow> bool" where
  "same_name a b \<longleftrightarrow> map tolower a = map tolower b"

definition is_header :: "string \<Rightarrow> string \<Rightarrow> bool" where
  "is_header N line \<longleftrightarrow>
     (case field_name line of None \<Rightarrow> False | Some h \<Rightarrow> same_name h N)"

definition count_header :: "string \<Rightarrow> string list \<Rightarrow> nat" where
  "count_header N lines = length (filter (is_header N) lines)"





subsection \<open>The code finds the field name of the specification\<close>




































lemma count_header_append:
  "count_header N (xs @ ys) = count_header N xs + count_header N ys"
  by (simp add: count_header_def)




subsection \<open>Concrete requests\<close>



















end
